theory Spec2Isabelle
  imports Main "HOL-Library.Char_ord" "HOL-Library.List_Lexorder" "HOL-Library.AList"
begin

section \<open>ABCU advising assistance program: a shallow embedding of ProjectTwo.cpp\<close>

text \<open>
  The program is a single C++ file. Its strings are \<open>std::string\<close>, sequences of bytes,
  modelled by \<^typ>\<open>string\<close> (lists of 8-bit \<^typ>\<open>char\<close>). The character classification
  functions \<open>isspace\<close> and \<open>toupper\<close> are those of the "C" locale, which is the locale in
  effect since the program never calls \<open>setlocale\<close>. The order on strings used by
  \<open>std::sort\<close> is \<open>std::string::operator<\<close>, the lexicographic order on bytes compared as
  unsigned values; it is the order that \<open>HOL-Library.Char_ord\<close> and
  \<open>HOL-Library.List_Lexorder\<close> put on \<^typ>\<open>string\<close>.
\<close>

subsection \<open>Data model\<close>

record Course =
  number :: string
  title :: string
  prereqNumbers :: "string list"

text \<open>
  \<open>CourseTable\<close> is a \<open>std::unordered_map<string, Course>\<close>. It is modelled by an association
  list with pairwise different keys: \<open>find\<close> is \<^const>\<open>map_of\<close>, \<open>operator[]\<close> followed by
  assignment is \<^const>\<open>AList.update\<close>, \<open>size\<close> is \<^const>\<open>length\<close>. The iteration order of an
  unordered map is unspecified; the order of the list stands for it, and the only iteration in
  the program is followed by a sort.
\<close>

type_synonym CourseTable = "(string \<times> Course) list"

record ProgramState =
  loaded :: bool
  courses :: CourseTable
  sortedKeys :: "string list"

definition initialState :: ProgramState where
  "initialState = \<lparr>loaded = False, courses = [], sortedKeys = []\<rparr>"

subsection \<open>Utility helpers\<close>

text \<open>\<open>isspace\<close> in the "C" locale: space, and the control characters \<open>\t \n \v \f \r\<close>.\<close>

definition isspace :: "char \<Rightarrow> bool" where
  "isspace ch = (let n = (of_char ch :: nat) in n = 32 \<or> (9 \<le> n \<and> n \<le> 13))"

text \<open>\<open>toupper\<close> in the "C" locale: the letters \<open>a\<close> to \<open>z\<close> go to \<open>A\<close> to \<open>Z\<close>.\<close>

definition toupper :: "char \<Rightarrow> char" where
  "toupper ch = (let n = (of_char ch :: nat) in
     if 97 \<le> n \<and> n \<le> 122 then char_of (n - 32) else ch)"

text \<open>
  \<open>ltrim\<close>: the index \<open>i\<close> runs forward over the leading white space, and the result is
  \<open>s.substr(i)\<close>.
\<close>

function ltrim_loop :: "string \<Rightarrow> nat \<Rightarrow> nat" where
  "ltrim_loop s i = (if i < length s \<and> isspace (s ! i) then ltrim_loop s (i + 1) else i)"
  by pat_completeness auto
termination
  by (relation "measure (\<lambda>(s, i). length s - i)") auto

declare ltrim_loop.simps [simp del]

definition ltrim :: "string \<Rightarrow> string" where
  "ltrim s = drop (ltrim_loop s 0) s"

text \<open>
  \<open>rtrim\<close>: the index \<open>i\<close> runs backward from the last character; when the character at
  index 0 is white space too, the result is the empty string, otherwise it is
  \<open>s.substr(0, i + 1)\<close>.
\<close>

function rtrim_loop :: "string \<Rightarrow> nat \<Rightarrow> string" where
  "rtrim_loop s i =
     (if i < length s \<and> isspace (s ! i)
      then (if i = 0 then [] else rtrim_loop s (i - 1))
      else take (i + 1) s)"
  by pat_completeness auto
termination
  by (relation "measure (\<lambda>(s, i). i)") auto

declare rtrim_loop.simps [simp del]

definition rtrim :: "string \<Rightarrow> string" where
  "rtrim s = (if s = [] then s else rtrim_loop s (length s - 1))"

definition trim :: "string \<Rightarrow> string" where
  "trim s = rtrim (ltrim s)"

text \<open>
  \<open>normalizeCourseId\<close>: white space, dashes, underscores and commas are dropped, every
  other character is pushed in upper case, and the result is trimmed.
\<close>

definition normalize_push :: "string \<Rightarrow> char \<Rightarrow> string" where
  "normalize_push out ch =
     (if isspace ch \<or> ch = CHR ''-'' \<or> ch = CHR ''_'' \<or> ch = CHR '','' then out
      else out @ [toupper ch])"

definition normalizeCourseId :: "string \<Rightarrow> string" where
  "normalizeCourseId s = trim (foldl normalize_push [] s)"

text \<open>
  \<open>splitCSV\<close>: the loop over the characters of the line, with the fields pushed so far
  (\<open>out\<close>), the field being read (\<open>cur\<close>) and the flag \<open>inQuotes\<close>. The first argument
  is the part of the line from index \<open>i\<close> on; the look-ahead \<open>line[i + 1]\<close> is the head of
  its tail, and the extra \<open>++i\<close> of the escaped quote drops two characters.
\<close>

abbreviation dquote :: char where
  "dquote \<equiv> CHR 0x22"

function splitCSV_loop :: "string \<Rightarrow> string list \<Rightarrow> string \<Rightarrow> bool \<Rightarrow> string list" where
  "splitCSV_loop [] out cur inQuotes = out @ [trim cur]"
| "splitCSV_loop (ch # rest) out cur inQuotes =
     (if ch = dquote then
        (if inQuotes \<and> rest \<noteq> [] \<and> hd rest = dquote
         then splitCSV_loop (tl rest) out (cur @ [dquote]) inQuotes
         else splitCSV_loop rest out cur (\<not> inQuotes))
      else if ch = CHR '','' \<and> \<not> inQuotes then splitCSV_loop rest (out @ [trim cur]) [] inQuotes
      else splitCSV_loop rest out (cur @ [ch]) inQuotes)"
  by pat_completeness auto
termination
  by (relation "measure (\<lambda>(line, out, cur, inQuotes). length line)") auto

definition splitCSV :: "string \<Rightarrow> string list" where
  "splitCSV line = splitCSV_loop line [] [] False"

subsection \<open>Streams and diagnostics\<close>

text \<open>
  An input stream (\<open>ifstream\<close>, \<open>cin\<close>) is the string of the characters not yet read.
  \<open>getline\<close> fails (\<open>None\<close>) when no character is left; otherwise it extracts the
  characters up to the next newline or the end of the stream, and discards the newline.
  A file system maps the names of the files that can be opened to their contents.
\<close>

abbreviation newline :: char where
  "newline \<equiv> CHR 0x0A"

definition getline :: "string \<Rightarrow> (string \<times> string) option" where
  "getline inp =
     (if inp = [] then None
      else Some (takeWhile (\<lambda>ch. ch \<noteq> newline) inp,
                 drop (Suc (length (takeWhile (\<lambda>ch. ch \<noteq> newline) inp))) inp))"

type_synonym FileSystem = "string \<Rightarrow> string option"

text \<open>
  What the program writes to \<open>cerr\<close> is kept as a list of messages, one per statement
  that writes; \<open>diagnosticText\<close> is the text of a message. Line numbers are \<open>size_t\<close> in
  the source; a file has fewer than \<open>2^64\<close> lines, so they are natural numbers here.
\<close>

datatype diagnostic = CouldNotOpen string | MalformedLine nat

fun digits :: "nat \<Rightarrow> string" where
  "digits n = (if n < 10 then [char_of (48 + n)] else digits (n div 10) @ [char_of (48 + n mod 10)])"

declare digits.simps [simp del]

definition diagnosticText :: "diagnostic \<Rightarrow> string" where
  "diagnosticText d = (case d of
       CouldNotOpen filename \<Rightarrow> ''Error: could not open '' @ [dquote] @ filename @ [dquote] @ ''.'' @ [newline]
     | MalformedLine lineNum \<Rightarrow> ''Warning: malformed line '' @ digits lineNum @ ''.'' @ [newline])"

subsection \<open>Option 1: load file data\<close>

text \<open>
  The body of the \<open>while (getline(in, line))\<close> loop, on the loop's variables: the line
  counter, the scratch table and the warnings written so far.
\<close>

definition loadLine :: "nat \<times> CourseTable \<times> diagnostic list \<Rightarrow> string \<Rightarrow> nat \<times> CourseTable \<times> diagnostic list" where
  "loadLine v rawLine = (case v of (lineNum0, newTable, warnings) \<Rightarrow>
     (let lineNum = lineNum0 + 1; line = trim rawLine in
      if line = [] then (lineNum, newTable, warnings)
      else let fields = splitCSV line in
        if length fields < 2 then (lineNum, newTable, warnings @ [MalformedLine lineNum])
        else let c = \<lparr>number = normalizeCourseId (fields ! 0),
                      title = fields ! 1,
                      prereqNumbers = filter (\<lambda>p. p \<noteq> []) (map normalizeCourseId (drop 2 fields))\<rparr>
          in if number c \<noteq> [] then (lineNum, AList.update (number c) c newTable, warnings)
             else (lineNum, newTable, warnings)))"

function loadLoop :: "string \<Rightarrow> nat \<times> CourseTable \<times> diagnostic list \<Rightarrow> nat \<times> CourseTable \<times> diagnostic list" where
  "loadLoop inp v = (case getline inp of
       None \<Rightarrow> v
     | Some (line, rest) \<Rightarrow> loadLoop rest (loadLine v line))"
  by pat_completeness auto
termination
  by (relation "measure (\<lambda>(inp, v). length inp)") (auto simp: getline_def split: if_splits)

declare loadLoop.simps [simp del]

record LoadResult =
  ok :: bool
  state :: ProgramState
  cerr :: "diagnostic list"
  cout :: string

definition loadCoursesFromFile :: "FileSystem \<Rightarrow> string \<Rightarrow> ProgramState \<Rightarrow> LoadResult" where
  "loadCoursesFromFile fs filename st = (case fs filename of
       None \<Rightarrow> \<lparr>ok = False, state = st, cerr = [CouldNotOpen filename], cout = []\<rparr>
     | Some content \<Rightarrow>
         (case loadLoop content (0, [], []) of (lineNum, newTable, warnings) \<Rightarrow>
            \<lparr>ok = True,
             state = \<lparr>loaded = True, courses = newTable, sortedKeys = sort (map fst newTable)\<rparr>,
             cerr = warnings,
             cout = ''Loaded '' @ digits (length newTable) @ '' courses from '' @ [dquote] @ filename
                    @ [dquote] @ ''.'' @ [newline]\<rparr>))"

subsection \<open>Option 2: print the full course list\<close>

text \<open>
  \<open>courses.at(id)\<close> throws \<open>std::out_of_range\<close> for a key that is not in the table; nothing
  catches it, so the program ends there.
\<close>

datatype exception = OutOfRange

definition notLoadedMessage :: string where
  "notLoadedMessage = ''Please load the data first (Option 1).'' @ [newline]"

fun printCourseList_loop :: "CourseTable \<Rightarrow> string list \<Rightarrow> exception + string" where
  "printCourseList_loop table [] = Inr []"
| "printCourseList_loop table (ident # rest) = (case map_of table ident of
       None \<Rightarrow> Inl OutOfRange
     | Some c \<Rightarrow> (case printCourseList_loop table rest of
           Inl e \<Rightarrow> Inl e
         | Inr out \<Rightarrow> Inr (ident @ '', '' @ title c @ [newline] @ out)))"

definition printCourseList :: "ProgramState \<Rightarrow> exception + string" where
  "printCourseList st =
     (if \<not> loaded st then Inr notLoadedMessage
      else printCourseList_loop (courses st) (sortedKeys st))"

subsection \<open>Option 3: print a single course and its prerequisites\<close>

definition coursePrompt :: string where
  "coursePrompt = ''What course do you want to know about? ''"

fun printPrereqs :: "CourseTable \<Rightarrow> string list \<Rightarrow> string" where
  "printPrereqs table [] = []"
| "printPrereqs table (pid # rest) =
     (case map_of table pid of
        Some p \<Rightarrow> number p @ '' ('' @ title p @ '')''
      | None \<Rightarrow> pid @ '' (missing)'')
     @ (if rest \<noteq> [] then '', '' else [])
     @ printPrereqs table rest"

text \<open>
  \<open>getline(cin, s)\<close> as the program uses it on \<open>cin\<close>: the string read is empty when
  the read fails, and the stream is left as it was.
\<close>

definition readLine :: "string \<Rightarrow> string \<times> string" where
  "readLine cin = (case getline cin of None \<Rightarrow> ([], cin) | Some (line, rest) \<Rightarrow> (line, rest))"

text \<open>
  \<open>describeCourse\<close> is the part of \<open>printSingleCourse\<close> that follows the read of the
  query: normalisation, the two error messages, the course and its prerequisites.
  \<open>printSingleCourse\<close> takes the state and \<open>cin\<close>, and returns what it writes to \<open>cout\<close>
  and what is left of \<open>cin\<close>.
\<close>

definition describeCourse :: "ProgramState \<Rightarrow> string \<Rightarrow> string" where
  "describeCourse st input =
     (let query = normalizeCourseId input in
        if query = [] then ''No course entered.'' @ [newline]
        else case map_of (courses st) query of
            None \<Rightarrow> ''Course not found.'' @ [newline]
          | Some c \<Rightarrow>
              number c @ '', '' @ title c @ [newline] @
              (if prereqNumbers c = [] then ''Prerequisites: None'' @ [newline]
               else ''Prerequisites: '' @ printPrereqs (courses st) (prereqNumbers c) @ [newline]))"

definition printSingleCourse :: "ProgramState \<Rightarrow> string \<Rightarrow> string \<times> string" where
  "printSingleCourse st cin =
     (if \<not> loaded st then (notLoadedMessage, cin)
      else case readLine cin of (query, rest) \<Rightarrow> (coursePrompt @ describeCourse st query, rest))"

subsection \<open>Menu and main loop\<close>

definition divider :: string where
  "divider = replicate 40 CHR ''-'' @ [newline]"

definition menuText :: string where
  "menuText = divider
     @ ''1. Load Data Structure'' @ [newline]
     @ ''2. Print Course List'' @ [newline]
     @ ''3. Print Course'' @ [newline]
     @ ''9. Exit'' @ [newline]
     @ divider @ ''Enter choice: ''"

text \<open>
  \<open>std::stoi\<close> in base 10, with \<open>None\<close> where it throws: leading white space is skipped,
  an optional sign is read, then the longest run of digits; no digit is
  \<open>std::invalid_argument\<close>, a number that does not fit an \<open>int\<close> is \<open>std::out_of_range\<close>.
\<close>

definition isdigit :: "char \<Rightarrow> bool" where
  "isdigit ch = (let n = (of_char ch :: nat) in 48 \<le> n \<and> n \<le> 57)"

definition stoi :: "string \<Rightarrow> int option" where
  "stoi str =
     (let s = dropWhile isspace str;
          negative = (s \<noteq> [] \<and> hd s = CHR ''-'');
          body = (if s \<noteq> [] \<and> (hd s = CHR ''-'' \<or> hd s = CHR ''+'') then tl s else s);
          ds = takeWhile isdigit body;
          magnitude = foldl (\<lambda>acc d. 10 * acc + (int (of_char d) - 48)) 0 ds;
          v = (if negative then - magnitude else magnitude)
      in if ds = [] then None
         else if v < - 2147483648 \<or> 2147483647 < v then None
         else Some v)"

datatype control = Continue | Break | Uncaught exception

record Step =
  nextState :: ProgramState
  restCin :: string
  stepCout :: string
  stepCerr :: "diagnostic list"
  flow :: control

text \<open>The branches of the main loop on \<open>choice\<close>; \<open>cin\<close> is what follows the menu line.\<close>

definition menuStep :: "FileSystem \<Rightarrow> int \<Rightarrow> string \<Rightarrow> ProgramState \<Rightarrow> Step" where
  "menuStep fs choice cin st =
     (if choice = 1 then
        (case readLine cin of (fname, rest) \<Rightarrow>
           if trim fname \<noteq> [] then
             (let r = loadCoursesFromFile fs (trim fname) st in
              \<lparr>nextState = state r, restCin = rest,
               stepCout = ''Enter the file name: '' @ cout r, stepCerr = cerr r, flow = Continue\<rparr>)
           else
             \<lparr>nextState = st, restCin = rest,
              stepCout = ''Enter the file name: '' @ ''No file name entered.'' @ [newline],
              stepCerr = [], flow = Continue\<rparr>)
      else if choice = 2 then
        (case printCourseList st of
           Inl e \<Rightarrow> \<lparr>nextState = st, restCin = cin, stepCout = [], stepCerr = [], flow = Uncaught e\<rparr>
         | Inr out \<Rightarrow> \<lparr>nextState = st, restCin = cin, stepCout = out, stepCerr = [], flow = Continue\<rparr>)
      else if choice = 3 then
        (case printSingleCourse st cin of (out, rest) \<Rightarrow>
           \<lparr>nextState = st, restCin = rest, stepCout = out, stepCerr = [], flow = Continue\<rparr>)
      else if choice = 9 then
        \<lparr>nextState = st, restCin = cin,
         stepCout = ''Thank you for using the Advising Assistance Program.'' @ [newline],
         stepCerr = [], flow = Break\<rparr>
      else
        \<lparr>nextState = st, restCin = cin,
         stepCout = ''That is not a valid option. Try again.'' @ [newline],
         stepCerr = [], flow = Continue\<rparr>)"

record Run =
  finalState :: ProgramState
  runCout :: string
  runCerr :: "diagnostic list"
  uncaught :: "exception option"

function mainLoop :: "FileSystem \<Rightarrow> string \<Rightarrow> ProgramState \<Rightarrow> Run" where
  "mainLoop fs cin st =
     (case getline cin of
        None \<Rightarrow> \<lparr>finalState = st, runCout = menuText, runCerr = [], uncaught = None\<rparr>
      | Some (line, rest) \<Rightarrow>
          (let choice = (case stoi (trim line) of None \<Rightarrow> - 1 | Some n \<Rightarrow> n);
               step = menuStep fs choice rest st
           in case flow step of
                Continue \<Rightarrow>
                  (let r = mainLoop fs (restCin step) (nextState step)
                   in r\<lparr>runCout := menuText @ stepCout step @ runCout r,
                        runCerr := stepCerr step @ runCerr r\<rparr>)
              | Break \<Rightarrow>
                  \<lparr>finalState = nextState step, runCout = menuText @ stepCout step,
                   runCerr = stepCerr step, uncaught = None\<rparr>
              | Uncaught e \<Rightarrow>
                  \<lparr>finalState = nextState step, runCout = menuText @ stepCout step,
                   runCerr = stepCerr step, uncaught = Some e\<rparr>))"
  by pat_completeness auto
termination
proof (relation "measure (\<lambda>(fs, cin, st). length cin)")
  show "wf (measure (\<lambda>(fs, cin, st). length cin))" by simp
next
  fix fs :: FileSystem and cin :: string and st :: ProgramState
    and x2 :: "string \<times> string" and line rest :: string and choice :: int and step :: Step
  assume g: "getline cin = Some x2" and x2: "(line, rest) = x2"
    and step: "step = menuStep fs choice rest st"
  from g x2 have "length rest < length cin"
    by (auto simp: getline_def split: if_splits)
  moreover have "length (restCin step) \<le> length rest"
    unfolding step
    by (auto simp: menuStep_def readLine_def getline_def printSingleCourse_def Let_def
             split: option.splits sum.splits prod.splits if_splits)
  ultimately show "((fs, restCin step, nextState step), (fs, cin, st)) \<in> measure (\<lambda>(fs, cin, st). length cin)"
    by simp
qed

declare mainLoop.simps [simp del]

definition main :: "FileSystem \<Rightarrow> string \<Rightarrow> Run" where
  "main fs cin =
     (let r = mainLoop fs cin initialState
      in r\<lparr>runCout := ''Welcome to the course planner.'' @ [newline] @ runCout r\<rparr>)"

subsection \<open>Notions used to state the properties\<close>

text \<open>The characters that \<open>normalizeCourseId\<close> drops.\<close>

definition dropped :: "char \<Rightarrow> bool" where
  "dropped ch = (isspace ch \<or> ch = CHR ''-'' \<or> ch = CHR ''_'' \<or> ch = CHR '','')"

text \<open>The lines of a stream: what successive calls of \<open>getline\<close> return.\<close>

function readLines :: "string \<Rightarrow> string list" where
  "readLines inp = (case getline inp of None \<Rightarrow> [] | Some (line, rest) \<Rightarrow> line # readLines rest)"
  by pat_completeness auto
termination
  by (relation "measure length") (auto simp: getline_def split: if_splits)

declare readLines.simps [simp del]

text \<open>
  The fields of an input line as the loader sees them, and the three ways the loader
  treats a line: a blank line, a line with fewer than two fields, and a line with at least
  two fields, which stands for the course \<open>lineCourse\<close>.
\<close>

definition lineFields :: "string \<Rightarrow> string list" where
  "lineFields rawLine = splitCSV (trim rawLine)"

definition blankLine :: "string \<Rightarrow> bool" where
  "blankLine rawLine = (trim rawLine = [])"

definition shortLine :: "string \<Rightarrow> bool" where
  "shortLine rawLine = (\<not> blankLine rawLine \<and> length (lineFields rawLine) < 2)"

definition lineCourse :: "string \<Rightarrow> Course" where
  "lineCourse rawLine =
     \<lparr>number = normalizeCourseId (lineFields rawLine ! 0),
      title = lineFields rawLine ! 1,
      prereqNumbers = filter (\<lambda>p. p \<noteq> []) (map normalizeCourseId (drop 2 (lineFields rawLine)))\<rparr>"

definition recordLine :: "string \<Rightarrow> bool" where
  "recordLine rawLine =
     (\<not> blankLine rawLine \<and> \<not> shortLine rawLine \<and> number (lineCourse rawLine) \<noteq> [])"

text \<open>
  The resolved prerequisites of the specification: a pair of number and title for a
  prerequisite that is in the table, the identifier and the marker \<open>missing\<close> for one that is
  not; \<open>showResolved\<close> is how a pair is printed, and \<open>joinWith\<close> puts a separator between
  consecutive elements.
\<close>

definition resolvePrereq :: "CourseTable \<Rightarrow> string \<Rightarrow> string \<times> string" where
  "resolvePrereq table pid =
     (case map_of table pid of Some p \<Rightarrow> (number p, title p) | None \<Rightarrow> (pid, ''missing''))"

definition showResolved :: "string \<times> string \<Rightarrow> string" where
  "showResolved r = fst r @ '' ('' @ snd r @ '')''"

fun joinWith :: "string \<Rightarrow> string list \<Rightarrow> string" where
  "joinWith sep [] = []"
| "joinWith sep [x] = x"
| "joinWith sep (x # y # ys) = x @ sep @ joinWith sep (y # ys)"

text \<open>
  The record parser in the words of the specification, in two passes. The first pass cuts
  the line into pieces: a character outside any quoted span, or a whole quoted span. A
  quoted span starts at a quote character and ends at the next quote character that is not
  the first of two consecutive ones; two consecutive quote characters inside the span stand
  for one quote character of its content; a span that is still open at the end of the line
  ends there. The second pass splits the list of pieces at the commas that are outside the
  spans; a field is the text of its pieces, trimmed. \<open>escapeQuotes\<close> writes a text as
  the inside of a quoted span, every quote character doubled.
\<close>

datatype piece = Outside char | Span string

fun quotedSpan :: "string \<Rightarrow> string \<times> string" where
  "quotedSpan [] = ([], [])"
| "quotedSpan [c] = (if c = dquote then ([], []) else ([c], []))"
| "quotedSpan (c # d # rest) =
     (if c = dquote \<and> d = dquote then
        (case quotedSpan rest of (content, after) \<Rightarrow> (dquote # content, after))
      else if c = dquote then ([], d # rest)
      else (case quotedSpan (d # rest) of (content, after) \<Rightarrow> (c # content, after)))"

function pieces :: "string \<Rightarrow> piece list" where
  "pieces [] = []"
| "pieces (c # rest) =
     (if c = dquote then
        (case quotedSpan rest of (content, after) \<Rightarrow> Span content # pieces after)
      else Outside c # pieces rest)"
  by pat_completeness auto
termination
proof -
  have le: "length (snd (quotedSpan s)) \<le> length s" for s
    by (induction s rule: quotedSpan.induct) (auto split: prod.splits)
  show ?thesis
  proof (relation "measure length", goal_cases)
    case 1
    show ?case by simp
  next
    case (2 c rest content after)
    then have "after = snd (quotedSpan rest)" by (metis snd_conv)
    with le[of rest] show ?case by simp
  next
    case (3 c rest)
    show ?case by simp
  qed
qed

fun pieceText :: "piece \<Rightarrow> string" where
  "pieceText (Outside c) = [c]"
| "pieceText (Span content) = content"

definition fieldText :: "piece list \<Rightarrow> string" where
  "fieldText ps = concat (map pieceText ps)"

definition isDelimiter :: "piece \<Rightarrow> bool" where
  "isDelimiter p = (p = Outside CHR '','')"

fun splitOn :: "('a \<Rightarrow> bool) \<Rightarrow> 'a list \<Rightarrow> 'a list list" where
  "splitOn P [] = [[]]"
| "splitOn P (x # xs) =
     (if P x then [] # splitOn P xs
      else (case splitOn P xs of
              [] \<Rightarrow> [[x]]
            | g # gs \<Rightarrow> (x # g) # gs))"

definition parseLine :: "string \<Rightarrow> string list" where
  "parseLine line = map (\<lambda>g. trim (fieldText g)) (splitOn isDelimiter (pieces line))"

definition escapeQuotes :: "string \<Rightarrow> string" where
  "escapeQuotes s = concat (map (\<lambda>c. if c = dquote then [dquote, dquote] else [c]) s)"

text \<open>
  The invariant of the course table: the keys are pairwise different, and every course is
  stored under its own number.
\<close>

definition keyed :: "CourseTable \<Rightarrow> bool" where
  "keyed t = (distinct (map fst t) \<and> (\<forall>e \<in> set t. number (snd e) = fst e))"

text \<open>A file system with a few course files, for the examples.\<close>

definition sampleFiles :: FileSystem where
  "sampleFiles = map_of
     [(''courses.csv'',
         ''CS300,Third\<newline>CS200,First\<newline>\<newline>stray\<newline>cs-200,Second,cs-100,,zz 9\<newline>CS100,Intro''),
      (''dups.csv'',
         ''CS200,First\<newline>cs-200,Second\<newline>CS300,Third\<newline>''),
      (''nokey.csv'',
         ''CS100,Intro\<newline>-,Nothing\<newline>CS300,Third''),
      (''nokey_removed.csv'',
         ''CS100,Intro\<newline>CS300,Third'')]"

section \<open>Properties\<close>

subsection \<open>Trimming\<close>

text \<open>
  The two index loops compute the usual trimming: \<open>ltrim\<close> drops the leading white space
  and \<open>rtrim\<close> the trailing white space.
\<close>

lemma ltrim_loop_eq: "i \<le> length s \<Longrightarrow> ltrim_loop s i = i + length (takeWhile isspace (drop i s))"
proof (induction s i rule: ltrim_loop.induct)
  case (1 s i)
  show ?case
  proof (cases "i < length s")
    case True
    then have d: "drop i s = s ! i # drop (Suc i) s" by (simp add: Cons_nth_drop_Suc)
    show ?thesis
    proof (cases "isspace (s ! i)")
      case True
      with \<open>i < length s\<close> 1 show ?thesis by (subst ltrim_loop.simps) (simp add: d)
    next
      case False
      then show ?thesis by (subst ltrim_loop.simps) (simp add: d)
    qed
  next
    case False
    then show ?thesis by (subst ltrim_loop.simps) simp
  qed
qed

lemma ltrim_dropWhile: "ltrim s = dropWhile isspace s"
  by (simp add: ltrim_def ltrim_loop_eq dropWhile_eq_drop)

lemma rtrim_loop_eq: "i < length s \<Longrightarrow> rtrim_loop s i = rev (dropWhile isspace (rev (take (Suc i) s)))"
proof (induction s i rule: rtrim_loop.induct)
  case (1 s i)
  have t: "take (Suc i) s = take i s @ [s ! i]" using 1(2) by (simp add: take_Suc_conv_app_nth)
  show ?case
  proof (cases "isspace (s ! i)")
    case True
    show ?thesis
    proof (cases i)
      case 0
      with True 1(2) t show ?thesis by (subst rtrim_loop.simps) simp
    next
      case (Suc j)
      with True 1 t show ?thesis by (subst rtrim_loop.simps) simp
    qed
  next
    case False
    with 1(2) show ?thesis by (subst rtrim_loop.simps) (simp add: t)
  qed
qed

lemma rtrim_dropWhile: "rtrim s = rev (dropWhile isspace (rev s))"
proof (cases "s = []")
  case True then show ?thesis by (simp add: rtrim_def)
next
  case False
  then have "Suc (length s - 1) = length s" by (cases s) auto
  with False show ?thesis by (simp add: rtrim_def rtrim_loop_eq)
qed

lemma trim_eq: "trim s = rev (dropWhile isspace (rev (dropWhile isspace s)))"
  by (simp add: trim_def ltrim_dropWhile rtrim_dropWhile)

lemma trim_Nil [simp]: "trim [] = []"
  by (simp add: trim_eq)

lemma trim_no_space: "\<forall>ch \<in> set s. \<not> isspace ch \<Longrightarrow> trim s = s"
proof -
  assume a: "\<forall>ch \<in> set s. \<not> isspace ch"
  have d: "dropWhile isspace xs = xs" if "\<forall>ch \<in> set xs. \<not> isspace ch" for xs
    using that by (cases xs) auto
  from a have "dropWhile isspace s = s" by (rule d)
  moreover from a have "dropWhile isspace (rev s) = rev s" by (intro d) simp
  ultimately show ?thesis by (simp add: trim_eq)
qed

lemma trim_trim: "trim (trim s) = trim s"
proof -
  let ?t = "dropWhile isspace s"
  let ?u = "dropWhile isspace (rev ?t)"
  have 1: "dropWhile isspace (rev ?u) = rev ?u"
  proof (cases "?u = []")
    case True then show ?thesis by (simp only: rev.simps dropWhile.simps)
  next
    case False
    have ne: "?t \<noteq> []"
    proof
      assume "?t = []"
      then have "?u = []" by (simp only: rev.simps dropWhile.simps)
      with False show False ..
    qed
    have "\<not> isspace (hd ?u)" using False hd_dropWhile by blast
    then have nl: "\<not> isspace (last (rev ?u))" using False by (simp add: last_rev)
    have "\<not> isspace (hd ?t)" using ne hd_dropWhile by blast
    moreover have "hd (rev ?u) = hd ?t"
    proof -
      obtain ys where ys: "rev ?t = ys @ ?u" by (metis takeWhile_dropWhile_id)
      then have "?t = rev ?u @ rev ys" by (metis rev_append rev_rev_ident)
      with False show ?thesis by (metis hd_append2 rev_is_Nil_conv)
    qed
    ultimately have "\<not> isspace (hd (rev ?u))" by simp
    with False show ?thesis by (cases "rev ?u") auto
  qed
  have 2: "dropWhile isspace (rev (rev ?u)) = ?u" by simp
  show ?thesis unfolding trim_eq[of s] trim_eq[of "rev ?u"] 1 2 ..
qed

lemma trim_hd_last:
  assumes "trim s \<noteq> []"
  shows "\<not> isspace (hd (trim s)) \<and> \<not> isspace (last (trim s))"
proof -
  let ?t = "dropWhile isspace s"
  let ?u = "dropWhile isspace (rev ?t)"
  have f: "trim s = rev ?u" by (simp add: trim_eq)
  with assms have u: "?u \<noteq> []" by (simp only: rev_is_Nil_conv not_False_eq_True)
  have t: "?t \<noteq> []"
  proof
    assume "?t = []"
    then have "?u = []" by (simp only: rev.simps dropWhile.simps)
    with u show False ..
  qed
  have "\<not> isspace (hd ?u)" using u hd_dropWhile by blast
  then have l: "\<not> isspace (last (rev ?u))" using u by (simp add: last_rev)
  have "\<not> isspace (hd ?t)" using t hd_dropWhile by blast
  moreover have "hd (rev ?u) = hd ?t"
  proof -
    obtain ys where ys: "rev ?t = ys @ ?u" by (metis takeWhile_dropWhile_id)
    then have "?t = rev ?u @ rev ys" by (metis rev_append rev_rev_ident)
    with u show ?thesis by (metis hd_append2 rev_is_Nil_conv)
  qed
  ultimately have "\<not> isspace (hd (rev ?u))" by simp
  with l show ?thesis unfolding f by blast
qed

subsection \<open>Normalisation of course identifiers\<close>

lemma foldl_normalize_push:
  "foldl normalize_push acc s = acc @ map toupper (filter (\<lambda>ch. \<not> dropped ch) s)"
  by (induction s arbitrary: acc) (auto simp: normalize_push_def dropped_def)

lemma of_char_toupper: "(of_char (toupper ch) :: nat) = (if 97 \<le> (of_char ch :: nat) \<and> (of_char ch :: nat) \<le> 122 then of_char ch - 32 else of_char ch)"
  by (auto simp: toupper_def Let_def)

lemma toupper_not_space: "\<not> isspace ch \<Longrightarrow> \<not> isspace (toupper ch)"
  by (auto simp: isspace_def Let_def of_char_toupper split: if_splits)

lemma dropped_iff: "dropped ch \<longleftrightarrow> (let n = (of_char ch :: nat) in n = 32 \<or> (9 \<le> n \<and> n \<le> 13) \<or> n = 45 \<or> n = 95 \<or> n = 44)"
proof -
  have a: "ch = c \<longleftrightarrow> (of_char ch :: nat) = of_char c" for c by simp
  show ?thesis
    unfolding dropped_def isspace_def Let_def a[of "CHR ''-''"] a[of "CHR ''_''"] a[of "CHR '',''"]
    by simp
qed

lemma toupper_not_dropped: "\<not> dropped ch \<Longrightarrow> \<not> dropped (toupper ch)"
  by (auto simp: dropped_iff Let_def of_char_toupper split: if_splits)

lemma toupper_idem: "toupper (toupper ch) = toupper ch"
proof -
  have "(of_char (toupper (toupper ch)) :: nat) = of_char (toupper ch)"
    by (auto simp: of_char_toupper)
  then show ?thesis by simp
qed

lemma normalizeCourseId_eq:
  "normalizeCourseId s = map toupper (filter (\<lambda>ch. \<not> dropped ch) s)"
proof -
  have "\<forall>ch \<in> set (map toupper (filter (\<lambda>ch. \<not> dropped ch) s)). \<not> isspace ch"
    using toupper_not_dropped by (auto simp: dropped_def)
  then show ?thesis
    by (simp add: normalizeCourseId_def foldl_normalize_push trim_no_space)
qed

lemma normalizeCourseId_idem: "normalizeCourseId (normalizeCourseId s) = normalizeCourseId s"
  by (induction s) (auto simp: normalizeCourseId_eq toupper_not_dropped toupper_idem)

text \<open>
  Claim C9. \<open>normalizeCourseId\<close> is idempotent: normalising a normalised identifier gives
  the same identifier, for every string. It maps \<open>cs-200\<close> and \<open>  cs 200 \<close> to \<open>CS200\<close>,
  \<open>CSCI,100\<close> to \<open>CSCI100\<close>, and the empty string to itself.
\<close>

theorem normalizeCourseId_idempotent:
  "normalizeCourseId (normalizeCourseId s) = normalizeCourseId s
   \<and> normalizeCourseId ''cs-200'' = ''CS200''
   \<and> normalizeCourseId ''  cs 200 '' = ''CS200''
   \<and> normalizeCourseId ''CSCI,100'' = ''CSCI100''
   \<and> normalizeCourseId [] = []"
proof -
  have "normalizeCourseId ''cs-200'' = ''CS200''" by code_simp
  moreover have "normalizeCourseId ''  cs 200 '' = ''CS200''" by code_simp
  moreover have "normalizeCourseId ''CSCI,100'' = ''CSCI100''" by code_simp
  moreover have "normalizeCourseId [] = []" by code_simp
  ultimately show ?thesis by (simp only: normalizeCourseId_idem simp_thms)
qed

subsection \<open>The record parser\<close>

lemma splitCSV_loop_pre:
  "splitCSV_loop line (pre @ out) cur q = pre @ splitCSV_loop line out cur q"
proof (induction line out cur q arbitrary: pre rule: splitCSV_loop.induct)
  case (1 out cur q)
  show ?case by simp
next
  case (2 ch rest out cur q)
  then show ?case by simp
qed

lemma splitCSV_loop_out:
  "splitCSV_loop line out cur q = out @ splitCSV_loop line [] cur q"
  using splitCSV_loop_pre[of line out "[]" cur q] by simp

lemma splitCSV_loop_not_Nil: "splitCSV_loop line out cur q \<noteq> []"
  by (induction line out cur q rule: splitCSV_loop.induct) auto

lemma splitCSV_loop_trimmed:
  "\<forall>f \<in> set out. trim f = f \<Longrightarrow> \<forall>f \<in> set (splitCSV_loop line out cur q). trim f = f"
proof (induction line out cur q rule: splitCSV_loop.induct)
  case (1 out cur q)
  then show ?case by (simp add: trim_trim)
next
  case (2 ch rest out cur q)
  note out = \<open>\<forall>f \<in> set out. trim f = f\<close>
  show ?case
  proof (cases "ch = dquote")
    case True
    show ?thesis
    proof (cases "q \<and> rest \<noteq> [] \<and> hd rest = dquote")
      case esc: True
      from 2(1)[OF True esc out] True esc show ?thesis by simp
    next
      case noesc: False
      from 2(2)[OF True noesc out] True noesc show ?thesis by auto
    qed
  next
    case False
    show ?thesis
    proof (cases "ch = CHR '','' \<and> \<not> q")
      case comma: True
      from out have "\<forall>f \<in> set (out @ [trim cur]). trim f = f" by (simp add: trim_trim)
      from 2(3)[OF False comma this] False comma show ?thesis by simp
    next
      case other: False
      from 2(4)[OF False other out] False other show ?thesis by auto
    qed
  qed
qed

lemma splitCSV_loop_quoted:
  "dquote \<notin> set content \<Longrightarrow>
   splitCSV_loop (content @ rest) out cur True = splitCSV_loop rest out (cur @ content) True"
  by (induction content arbitrary: cur) auto

lemma splitCSV_loop_plain:
  "dquote \<notin> set content \<Longrightarrow> CHR '','' \<notin> set content \<Longrightarrow>
   splitCSV_loop (content @ rest) out cur False = splitCSV_loop rest out (cur @ content) False"
  by (induction content arbitrary: cur) auto

text \<open>
  The loop of \<open>splitCSV\<close> computes the parser of the specification: inside a quoted
  span it reads up to the end of the span, and outside it splits at every comma.
\<close>

lemma splitOn_not_Nil: "splitOn P xs \<noteq> []"
  by (induction xs) (auto split: list.splits)

lemma length_splitOn: "length (splitOn P xs) = Suc (length (filter P xs))"
  by (induction xs) (auto split: list.splits simp: splitOn_not_Nil)

lemma splitCSV_loop_span:
  "splitCSV_loop s out cur True =
     splitCSV_loop (snd (quotedSpan s)) out (cur @ fst (quotedSpan s)) False"
proof (induction s arbitrary: cur rule: quotedSpan.induct)
  case 1
  show ?case by simp
next
  case (2 c)
  show ?case by simp
next
  case (3 c d rest)
  show ?case
  proof (cases "c = dquote")
    case True
    show ?thesis
    proof (cases "d = dquote")
      case d: True
      from 3(1)[OF conjI[OF True d], of "cur @ [dquote]"] True d show ?thesis
        by (simp add: split_def)
    next
      case d: False
      with True show ?thesis by simp
    qed
  next
    case False
    then have n: "\<not> (c = dquote \<and> d = dquote)" by simp
    from 3(2)[OF n False, of "cur @ [c]"] False show ?thesis
      by (simp add: split_def)
  qed
qed

text \<open>The fields from a list of pieces, with the text already read for the first one.\<close>

lemma splitCSV_loop_pieces:
  "splitCSV_loop s out cur False =
     out @ trim (cur @ fieldText (hd (splitOn isDelimiter (pieces s))))
         # map (\<lambda>g. trim (fieldText g)) (tl (splitOn isDelimiter (pieces s)))"
proof (induction s arbitrary: out cur rule: pieces.induct)
  case 1
  show ?case by (simp add: fieldText_def)
next
  case (2 c rest)
  show ?case
  proof (cases "c = dquote")
    case True
    obtain content after where q: "quotedSpan rest = (content, after)" by (cases "quotedSpan rest")
    have nd: "\<not> isDelimiter (Span content)" by (simp add: isDelimiter_def)
    have "splitCSV_loop (c # rest) out cur False = splitCSV_loop rest out cur True"
      using True by simp
    also have "\<dots> = splitCSV_loop after out (cur @ content) False"
      by (simp add: splitCSV_loop_span q)
    also have "\<dots> = out @ trim ((cur @ content) @ fieldText (hd (splitOn isDelimiter (pieces after))))
         # map (\<lambda>g. trim (fieldText g)) (tl (splitOn isDelimiter (pieces after)))"
      by (rule 2(1)[OF True q[symmetric]])
    finally show ?thesis
      using True q nd splitOn_not_Nil[of isDelimiter "pieces after"]
      by (auto simp: fieldText_def split: list.splits)
  next
    case False
    show ?thesis
    proof (cases "c = CHR '',''")
      case comma: True
      then have d: "isDelimiter (Outside c)" by (simp add: isDelimiter_def)
      have "splitCSV_loop (c # rest) out cur False = splitCSV_loop rest (out @ [trim cur]) [] False"
        using comma by simp
      also have "\<dots> = (out @ [trim cur]) @ trim ([] @ fieldText (hd (splitOn isDelimiter (pieces rest))))
         # map (\<lambda>g. trim (fieldText g)) (tl (splitOn isDelimiter (pieces rest)))"
        by (rule 2(2)[OF False])
      finally show ?thesis
        using False d splitOn_not_Nil[of isDelimiter "pieces rest"]
        by (cases "splitOn isDelimiter (pieces rest)") (auto simp: fieldText_def)
    next
      case other: False
      then have d: "\<not> isDelimiter (Outside c)" by (simp add: isDelimiter_def)
      have "splitCSV_loop (c # rest) out cur False = splitCSV_loop rest out (cur @ [c]) False"
        using False other by simp
      also have "\<dots> = out @ trim ((cur @ [c]) @ fieldText (hd (splitOn isDelimiter (pieces rest))))
         # map (\<lambda>g. trim (fieldText g)) (tl (splitOn isDelimiter (pieces rest)))"
        by (rule 2(2)[OF False])
      finally show ?thesis
        using False d splitOn_not_Nil[of isDelimiter "pieces rest"]
        by (auto simp: fieldText_def split: list.splits)
    qed
  qed
qed

lemma splitCSV_parseLine: "splitCSV line = parseLine line"
proof -
  have "splitOn isDelimiter (pieces line) \<noteq> []" by (rule splitOn_not_Nil)
  then obtain g gs where g: "splitOn isDelimiter (pieces line) = g # gs"
    by (cases "splitOn isDelimiter (pieces line)") auto
  show ?thesis
    by (simp add: splitCSV_def parseLine_def splitCSV_loop_pieces[of line "[]" "[]"] g)
qed

lemma length_splitCSV: "length (splitCSV line) = Suc (length (filter isDelimiter (pieces line)))"
  by (simp add: splitCSV_parseLine parseLine_def length_splitOn)

lemma escapeQuotes_Cons:
  "escapeQuotes (x # s) = (if x = dquote then [dquote, dquote] else [x]) @ escapeQuotes s"
  by (simp add: escapeQuotes_def)

lemma splitCSV_loop_escaped:
  "r = [] \<or> hd r \<noteq> dquote \<Longrightarrow>
   splitCSV_loop (escapeQuotes s @ dquote # r) out cur True = splitCSV_loop r out (cur @ s) False"
proof (induction s arbitrary: cur)
  case Nil
  then show ?case by (auto simp: escapeQuotes_def)
next
  case (Cons c s)
  show ?case
  proof (cases "c = dquote")
    case True
    with Cons.IH[OF Cons.prems, of "cur @ [dquote]"] show ?thesis by (simp add: escapeQuotes_Cons)
  next
    case False
    with Cons.IH[OF Cons.prems, of "cur @ [c]"] show ?thesis by (simp add: escapeQuotes_Cons)
  qed
qed

lemma splitCSV_loop_escaped_open:
  "splitCSV_loop (escapeQuotes s) out cur True = out @ [trim (cur @ s)]"
proof (induction s arbitrary: cur)
  case Nil
  show ?case by (simp add: escapeQuotes_def)
next
  case (Cons c s)
  show ?case
  proof (cases "c = dquote")
    case True
    with Cons.IH[of "cur @ [dquote]"] show ?thesis by (simp add: escapeQuotes_Cons)
  next
    case False
    with Cons.IH[of "cur @ [c]"] show ?thesis by (simp add: escapeQuotes_Cons)
  qed
qed

text \<open>
  Claim C6. \<open>splitCSV\<close> splits only at commas outside quoted spans, and two consecutive
  quote characters inside a quoted span give one quote character: the line
  \<open>CSCI200,"Data Structures, with Labs",CSCI100\<close> gives exactly the three fields
  \<open>CSCI200\<close>, \<open>Data Structures, with Labs\<close> and \<open>CSCI100\<close>; every line, the empty
  line included, gives at least one field (the empty line gives one empty field); a comma
  that follows text with neither quote nor comma ends the first field; and a quoted span
  with a doubled quote inside is one field, whatever commas it contains, with one quote
  character at the place of the doubled one. For every line, the result is the result of the
  parser of the specification, \<open>parseLine\<close>, and the number of fields is one more than
  the number of commas outside quoted spans. A quoted span that holds any text at all, with
  every quote character of the text doubled, adds exactly that text to its field, without a
  split at the commas of the text, whether the span is followed by a comma, ends the line,
  or is left open at the end of the line; so a span that starts in the middle of a field
  (\<open>CS2, "Data, with Labs"\<close>) and a span with several doubled quotes are read as the
  specification says.
\<close>

theorem splitCSV_quote_aware:
  "splitCSV (''CSCI200,'' @ [dquote] @ ''Data Structures, with Labs'' @ [dquote] @ '',CSCI100'')
     = [''CSCI200'', ''Data Structures, with Labs'', ''CSCI100'']
   \<and> splitCSV line \<noteq> []
   \<and> splitCSV [] = [[]]
   \<and> (dquote \<notin> set a \<and> CHR '','' \<notin> set a \<longrightarrow>
        splitCSV (a @ CHR '','' # rest) = trim a # splitCSV rest)
   \<and> (dquote \<notin> set b \<and> dquote \<notin> set c \<longrightarrow>
        splitCSV (dquote # b @ [dquote, dquote] @ c @ [dquote]) = [trim (b @ [dquote] @ c)])
   \<and> splitCSV line = parseLine line
   \<and> length (splitCSV line) = Suc (length (filter isDelimiter (pieces line)))
   \<and> (dquote \<notin> set p \<and> CHR '','' \<notin> set p \<longrightarrow>
        splitCSV (p @ dquote # escapeQuotes s @ dquote # CHR '','' # r) = trim (p @ s) # splitCSV r
        \<and> splitCSV (p @ dquote # escapeQuotes s @ [dquote]) = [trim (p @ s)]
        \<and> splitCSV (p @ dquote # escapeQuotes s) = [trim (p @ s)])
   \<and> splitCSV (''CS2, '' @ [dquote] @ ''Data, with Labs'' @ [dquote]) = [''CS2'', ''Data, with Labs'']
   \<and> splitCSV ([dquote] @ ''a'' @ [dquote, dquote] @ ''b'' @ [dquote, dquote] @ ''c,d'' @ [dquote])
       = [''a'' @ [dquote] @ ''b'' @ [dquote] @ ''c,d'']"
proof -
  have 1: "splitCSV (''CSCI200,'' @ [dquote] @ ''Data Structures, with Labs'' @ [dquote] @ '',CSCI100'')
     = [''CSCI200'', ''Data Structures, with Labs'', ''CSCI100'']"
    by code_simp
  have 2: "splitCSV line \<noteq> []"
    by (simp add: splitCSV_def splitCSV_loop_not_Nil)
  have 3: "splitCSV [] = [[]]"
    by (simp add: splitCSV_def)
  have 4: "splitCSV (a @ CHR '','' # rest) = trim a # splitCSV rest"
    if "dquote \<notin> set a" "CHR '','' \<notin> set a"
    using that splitCSV_loop_out[of rest "[trim a]" "[]" False]
    by (simp add: splitCSV_def splitCSV_loop_plain)
  have 5: "splitCSV (dquote # b @ [dquote, dquote] @ c @ [dquote]) = [trim (b @ [dquote] @ c)]"
    if "dquote \<notin> set b" "dquote \<notin> set c"
    using that splitCSV_loop_quoted[of c "[dquote]" "[]" "b @ [dquote]"]
    by (simp add: splitCSV_def splitCSV_loop_quoted)
  have 6: "splitCSV line = parseLine line"
    by (rule splitCSV_parseLine)
  have 7: "length (splitCSV line) = Suc (length (filter isDelimiter (pieces line)))"
    by (rule length_splitCSV)
  have 8: "splitCSV (p @ dquote # escapeQuotes s @ dquote # CHR '','' # r) = trim (p @ s) # splitCSV r"
    if "dquote \<notin> set p" "CHR '','' \<notin> set p"
  proof -
    have "splitCSV (p @ dquote # escapeQuotes s @ dquote # CHR '','' # r)
        = splitCSV_loop (dquote # escapeQuotes s @ dquote # CHR '','' # r) [] p False"
      using that by (simp add: splitCSV_def splitCSV_loop_plain)
    also have "\<dots> = splitCSV_loop (escapeQuotes s @ dquote # CHR '','' # r) [] p True"
      by simp
    also have "\<dots> = splitCSV_loop (CHR '','' # r) [] (p @ s) False"
      by (rule splitCSV_loop_escaped) simp
    also have "\<dots> = trim (p @ s) # splitCSV r"
      using splitCSV_loop_out[of r "[trim (p @ s)]" "[]" False] by (simp add: splitCSV_def)
    finally show ?thesis .
  qed
  have 9: "splitCSV (p @ dquote # escapeQuotes s @ [dquote]) = [trim (p @ s)]"
    if "dquote \<notin> set p" "CHR '','' \<notin> set p"
  proof -
    have "splitCSV (p @ dquote # escapeQuotes s @ [dquote])
        = splitCSV_loop (dquote # escapeQuotes s @ [dquote]) [] p False"
      using that by (simp add: splitCSV_def splitCSV_loop_plain)
    also have "\<dots> = splitCSV_loop (escapeQuotes s @ [dquote]) [] p True"
      by simp
    also have "\<dots> = splitCSV_loop [] [] (p @ s) False"
      by (rule splitCSV_loop_escaped) simp
    finally show ?thesis by simp
  qed
  have 10: "splitCSV (p @ dquote # escapeQuotes s) = [trim (p @ s)]"
    if "dquote \<notin> set p" "CHR '','' \<notin> set p"
  proof -
    have "splitCSV (p @ dquote # escapeQuotes s)
        = splitCSV_loop (dquote # escapeQuotes s) [] p False"
      using that by (simp add: splitCSV_def splitCSV_loop_plain)
    also have "\<dots> = splitCSV_loop (escapeQuotes s) [] p True"
      by simp
    finally show ?thesis by (simp add: splitCSV_loop_escaped_open)
  qed
  have 11: "splitCSV (''CS2, '' @ [dquote] @ ''Data, with Labs'' @ [dquote]) = [''CS2'', ''Data, with Labs'']"
    by code_simp
  have 12: "splitCSV ([dquote] @ ''a'' @ [dquote, dquote] @ ''b'' @ [dquote, dquote] @ ''c,d'' @ [dquote])
       = [''a'' @ [dquote] @ ''b'' @ [dquote] @ ''c,d'']"
    by code_simp
  from 1 2 3 4 5 6 7 8 9 10 11 12 show ?thesis by blast
qed

theorem splitCSV_quote_aware_witness:
  "dquote \<notin> set ''x y'' \<and> CHR '','' \<notin> set ''x y''
   \<and> splitCSV (''x y'' @ CHR '','' # ''z'') = [''x y'', ''z'']
   \<and> dquote \<notin> set ''a, '' \<and> dquote \<notin> set ''b''
   \<and> splitCSV (dquote # ''a, '' @ [dquote, dquote] @ ''b'' @ [dquote]) = [''a, '' @ [dquote] @ ''b'']
   \<and> dquote \<notin> set ''x '' \<and> CHR '','' \<notin> set ''x ''
   \<and> escapeQuotes (''b,'' @ [dquote] @ ''c'' @ [dquote] @ '',d'')
       = ''b,'' @ [dquote, dquote] @ ''c'' @ [dquote, dquote] @ '',d''
   \<and> splitCSV (''x '' @ dquote # (''b,'' @ [dquote, dquote] @ ''c'' @ [dquote, dquote] @ '',d'') @ dquote # CHR '','' # ''z, w'')
       = [''x b,'' @ [dquote] @ ''c'' @ [dquote] @ '',d'', ''z'', ''w'']
   \<and> splitCSV (''x '' @ dquote # (''b,'' @ [dquote, dquote] @ ''c'' @ [dquote, dquote] @ '',d'') @ [dquote])
       = [''x b,'' @ [dquote] @ ''c'' @ [dquote] @ '',d'']
   \<and> splitCSV (''x '' @ dquote # (''b,'' @ [dquote, dquote] @ ''c'' @ [dquote, dquote] @ '',d''))
       = [''x b,'' @ [dquote] @ ''c'' @ [dquote] @ '',d'']
   \<and> parseLine (''p, '' @ [dquote] @ ''q, r'' @ [dquote] @ '' ,s'') = [''p'', ''q, r'', ''s'']
   \<and> splitCSV (''p, '' @ [dquote] @ ''q, r'' @ [dquote] @ '' ,s'') = [''p'', ''q, r'', ''s'']"
proof -
  let ?s = "''b,'' @ [dquote] @ ''c'' @ [dquote] @ '',d''"
  let ?l = "''p, '' @ [dquote] @ ''q, r'' @ [dquote] @ '' ,s''"
  have h1: "dquote \<notin> set ''x y'' \<and> CHR '','' \<notin> set ''x y''" by simp
  have h2: "dquote \<notin> set ''a, '' \<and> dquote \<notin> set ''b''" by simp
  have h3: "dquote \<notin> set ''x '' \<and> CHR '','' \<notin> set ''x ''" by simp
  note t = splitCSV_quote_aware[where line = ?l and a = "''x y''" and rest = "''z''" and b = "''a, ''"
      and c = "''b''" and p = "''x ''" and s = ?s and r = "''z, w''"]
  from t h1 have "splitCSV (''x y'' @ CHR '','' # ''z'') = trim ''x y'' # splitCSV ''z''" by blast
  moreover have "trim ''x y'' # splitCSV ''z'' = [''x y'', ''z'']" by code_simp
  moreover from t h2 have "splitCSV (dquote # ''a, '' @ [dquote, dquote] @ ''b'' @ [dquote])
      = [trim (''a, '' @ [dquote] @ ''b'')]" by blast
  moreover have "trim (''a, '' @ [dquote] @ ''b'') = ''a, '' @ [dquote] @ ''b''" by code_simp
  moreover have e: "escapeQuotes ?s = ''b,'' @ [dquote, dquote] @ ''c'' @ [dquote, dquote] @ '',d''"
    by code_simp
  moreover from t h3 have "splitCSV (''x '' @ dquote # escapeQuotes ?s @ dquote # CHR '','' # ''z, w'')
      = trim (''x '' @ ?s) # splitCSV ''z, w''" by blast
  moreover from t h3 have "splitCSV (''x '' @ dquote # escapeQuotes ?s @ [dquote]) = [trim (''x '' @ ?s)]"
    by blast
  moreover from t h3 have "splitCSV (''x '' @ dquote # escapeQuotes ?s) = [trim (''x '' @ ?s)]"
    by blast
  moreover have "trim (''x '' @ ?s) = ''x b,'' @ [dquote] @ ''c'' @ [dquote] @ '',d''" by code_simp
  moreover have "splitCSV ''z, w'' = [''z'', ''w'']" by code_simp
  moreover have pl: "parseLine ?l = [''p'', ''q, r'', ''s'']" by code_simp
  moreover from t pl have "splitCSV ?l = [''p'', ''q, r'', ''s'']" by simp
  ultimately show ?thesis using h1 h2 h3 by simp
qed


text \<open>
  Claim C2, as stated, fails: the line \<open>a," b ",c\<close> gives the fields \<open>a\<close>, \<open>b\<close>, \<open>c\<close>;
  the white space inside the quotes is not kept.
\<close>

theorem splitCSV_quoted_space_counterexample:
  "splitCSV (''a,'' @ [dquote] @ '' b '' @ [dquote] @ '',c'') = [''a'', ''b'', ''c'']
   \<and> splitCSV (''a,'' @ [dquote] @ '' b '' @ [dquote] @ '',c'') ! 1 \<noteq> '' b ''"
proof -
  have "splitCSV (''a,'' @ [dquote] @ '' b '' @ [dquote] @ '',c'') = [''a'', ''b'', ''c'']"
    by code_simp
  then show ?thesis by simp
qed

text \<open>
  Claim C2, amended. \<open>splitCSV\<close> drops the quote characters while it reads a field and
  trims the text it has read, so white space at either end of a field is removed also when
  it was written inside a quoted span: no field returned begins or ends with white space,
  and a line that is one quoted span gives the trimmed content of the span.
\<close>

theorem splitCSV_trims_fields:
  "(\<forall>f \<in> set (splitCSV line). f = [] \<or> (\<not> isspace (hd f) \<and> \<not> isspace (last f)))
   \<and> (dquote \<notin> set content \<longrightarrow> splitCSV (dquote # content @ [dquote]) = [trim content])"
proof -
  have "\<forall>f \<in> set (splitCSV line). trim f = f"
    unfolding splitCSV_def by (rule splitCSV_loop_trimmed) simp
  then have "\<forall>f \<in> set (splitCSV line). f = [] \<or> (\<not> isspace (hd f) \<and> \<not> isspace (last f))"
    using trim_hd_last by metis
  moreover have "splitCSV (dquote # content @ [dquote]) = [trim content]" if "dquote \<notin> set content"
    using that by (simp add: splitCSV_def splitCSV_loop_quoted)
  ultimately show ?thesis by blast
qed

theorem splitCSV_trims_fields_witness:
  "''b c'' \<in> set (splitCSV '' a , b c '')
   \<and> \<not> isspace (hd ''b c'') \<and> \<not> isspace (last ''b c'')
   \<and> dquote \<notin> set '' b ''
   \<and> splitCSV (dquote # '' b '' @ [dquote]) = [''b'']"
proof -
  have m: "''b c'' \<in> set (splitCSV '' a , b c '')" by code_simp
  have h: "dquote \<notin> set '' b ''" by simp
  note t = splitCSV_trims_fields[where line = "'' a , b c ''" and content = "'' b ''"]
  from t m have "\<not> isspace (hd ''b c'') \<and> \<not> isspace (last ''b c'')" by fastforce
  moreover from t h have "splitCSV (dquote # '' b '' @ [dquote]) = [trim '' b '']" by blast
  moreover have "trim '' b '' = ''b''" by code_simp
  ultimately show ?thesis using m h by simp
qed

subsection \<open>The catalog builder\<close>

text \<open>
  The loop over the stream is a fold of the loop body over the lines of the stream, and the
  body does one of three things with a line, according to \<open>blankLine\<close>, \<open>shortLine\<close>
  and \<open>recordLine\<close>.
\<close>

lemma loadLoop_foldl: "loadLoop inp v = foldl loadLine v (readLines inp)"
proof (induction inp v rule: loadLoop.induct)
  case (1 inp v)
  show ?case
  proof (cases "getline inp")
    case None
    then show ?thesis by (subst loadLoop.simps, subst readLines.simps) simp
  next
    case (Some p)
    obtain line rest where p: "p = (line, rest)" by (cases p)
    from 1[OF Some p[symmetric]] Some p show ?thesis
      by (subst loadLoop.simps, subst readLines.simps) simp
  qed
qed

lemma loadLine_eq:
  "loadLine (n, t, w) raw =
     (Suc n,
      if recordLine raw then AList.update (number (lineCourse raw)) (lineCourse raw) t else t,
      if shortLine raw then w @ [MalformedLine (Suc n)] else w)"
  by (simp add: loadLine_def Let_def recordLine_def shortLine_def blankLine_def
        lineCourse_def lineFields_def)

lemma foldl_loadLine_lineNum: "fst (foldl loadLine (n, t, w) ls) = n + length ls"
  by (induction ls arbitrary: n t w) (simp_all add: loadLine_eq)

lemma foldl_loadLine_table_indep:
  "fst (snd (foldl loadLine (n, t, w) ls)) = fst (snd (foldl loadLine (n', t, w') ls))"
  by (induction ls arbitrary: n t w n' w') (simp_all add: loadLine_eq)

lemma set_update_subset: "set (AList.update k v al) \<subseteq> insert (k, v) (set al)"
  by (induction al) auto

lemma keyed_update: "keyed t \<Longrightarrow> number c = k \<Longrightarrow> keyed (AList.update k c t)"
  unfolding keyed_def using set_update_subset[of k c t]
  by (auto simp: distinct_update)

lemma foldl_loadLine_keyed:
  "keyed t \<Longrightarrow> keyed (fst (snd (foldl loadLine (n, t, w) ls)))"
  by (induction ls arbitrary: n t w) (simp_all add: loadLine_eq keyed_update)

lemma foldl_loadLine_other_keys:
  "\<forall>l \<in> set ls. recordLine l \<longrightarrow> number (lineCourse l) \<noteq> k \<Longrightarrow>
   map_of (fst (snd (foldl loadLine (n, t, w) ls))) k = map_of t k"
  by (induction ls arbitrary: n t w) (auto simp: loadLine_eq update_conv')

lemma foldl_loadLine_last_wins:
  assumes "recordLine line"
    and "\<forall>l \<in> set after. recordLine l \<longrightarrow> number (lineCourse l) \<noteq> number (lineCourse line)"
  shows "map_of (fst (snd (foldl loadLine v (before @ line # after)))) (number (lineCourse line))
         = Some (lineCourse line)"
proof -
  obtain n t w where v: "foldl loadLine v before = (n, t, w)" by (cases "foldl loadLine v before")
  show ?thesis
    using assms by (simp add: v loadLine_eq foldl_loadLine_other_keys update_conv')
qed

lemma foldl_loadLine_skip:
  assumes "\<not> recordLine line"
  shows "fst (snd (foldl loadLine (n, t, w) (before @ line # after)))
         = fst (snd (foldl loadLine (n, t, w) (before @ after)))"
proof -
  obtain n1 t1 w1 where v: "foldl loadLine (n, t, w) before = (n1, t1, w1)"
    by (cases "foldl loadLine (n, t, w) before")
  show ?thesis
    using assms foldl_loadLine_table_indep[of "Suc n1" t1 _ after n1 w1]
    by (simp add: v loadLine_eq)
qed

lemma foldl_loadLine_warnings:
  "MalformedLine m \<in> set (snd (snd (foldl loadLine (n, t, w) ls))) \<longleftrightarrow>
   MalformedLine m \<in> set w \<or> (n < m \<and> m \<le> n + length ls \<and> shortLine (ls ! (m - Suc n)))"
proof (induction ls arbitrary: n t w)
  case Nil
  show ?case by auto
next
  case (Cons x xs)
  have IH: "MalformedLine m \<in> set (snd (snd (foldl loadLine (Suc n, t', w') xs))) \<longleftrightarrow>
      MalformedLine m \<in> set w' \<or>
      (Suc n < m \<and> m \<le> Suc n + length xs \<and> shortLine (xs ! (m - Suc (Suc n))))" for t' w'
    by (rule Cons)
  have nth: "(x # xs) ! (m - Suc n) = (if m = Suc n then x else xs ! (m - Suc (Suc n)))"
    if "n < m"
    using that by (auto simp: nth_Cons')
  show ?case
    by (cases "n < m") (auto simp: loadLine_eq IH nth)
qed

lemma keyed_one_entry:
  "distinct (map fst t) \<Longrightarrow> map_of t k = Some c \<Longrightarrow> filter (\<lambda>e. fst e = k) t = [(k, c)]"
proof (induction t)
  case Nil
  then show ?case by simp
next
  case (Cons e t)
  show ?case
  proof (cases "fst e = k")
    case True
    with Cons.prems have "filter (\<lambda>e. fst e = k) t = []"
      by (auto simp: filter_empty_conv image_iff)
    with True Cons.prems show ?thesis by (cases e) auto
  next
    case False
    with Cons show ?thesis by auto
  qed
qed


lemma load_unfold:
  assumes "fs filename = Some content"
  shows "loadCoursesFromFile fs filename st =
     \<lparr>ok = True,
      state = \<lparr>loaded = True,
               courses = fst (snd (foldl loadLine (0, [], []) (readLines content))),
               sortedKeys = sort (map fst (fst (snd (foldl loadLine (0, [], []) (readLines content)))))\<rparr>,
      cerr = snd (snd (foldl loadLine (0, [], []) (readLines content))),
      cout = ''Loaded '' @ digits (length (fst (snd (foldl loadLine (0, [], []) (readLines content)))))
             @ '' courses from '' @ [dquote] @ filename @ [dquote] @ ''.'' @ [newline]\<rparr>"
  using assms by (simp add: loadCoursesFromFile_def loadLoop_foldl split: prod.splits)

lemma load_ok_iff: "ok (loadCoursesFromFile fs filename st) \<longleftrightarrow> fs filename \<noteq> None"
  by (auto simp: loadCoursesFromFile_def split: option.splits prod.splits)

text \<open>
  Claim C3. After a successful load, a load attempt on a source that cannot be opened
  returns failure and leaves the state (table, sorted keys and the flag \<open>loaded\<close>) equal to
  the state that the successful load produced.
\<close>

theorem failed_load_keeps_catalog:
  assumes "ok (loadCoursesFromFile fs1 file1 st0)" and "fs2 file2 = None"
  shows "\<not> ok (loadCoursesFromFile fs2 file2 (state (loadCoursesFromFile fs1 file1 st0)))
     \<and> state (loadCoursesFromFile fs2 file2 (state (loadCoursesFromFile fs1 file1 st0)))
         = state (loadCoursesFromFile fs1 file1 st0)
     \<and> loaded (state (loadCoursesFromFile fs2 file2 (state (loadCoursesFromFile fs1 file1 st0))))"
proof -
  from assms(1) obtain content where c: "fs1 file1 = Some content"
    by (auto simp: load_ok_iff)
  have "loaded (state (loadCoursesFromFile fs1 file1 st0))"
    by (simp add: load_unfold[of fs1 file1 content, OF c])
  with assms(2) show ?thesis
    by (simp add: loadCoursesFromFile_def)
qed

theorem failed_load_keeps_catalog_witness:
  "ok (loadCoursesFromFile sampleFiles ''dups.csv'' initialState)
   \<and> sampleFiles ''missing.csv'' = None
   \<and> \<not> ok (loadCoursesFromFile sampleFiles ''missing.csv''
              (state (loadCoursesFromFile sampleFiles ''dups.csv'' initialState)))
   \<and> state (loadCoursesFromFile sampleFiles ''missing.csv''
              (state (loadCoursesFromFile sampleFiles ''dups.csv'' initialState)))
       = state (loadCoursesFromFile sampleFiles ''dups.csv'' initialState)
   \<and> sortedKeys (state (loadCoursesFromFile sampleFiles ''dups.csv'' initialState)) = [''CS200'', ''CS300'']"
proof -
  have h1: "ok (loadCoursesFromFile sampleFiles ''dups.csv'' initialState)" by code_simp
  have h2: "sampleFiles ''missing.csv'' = None" by code_simp
  have e: "sortedKeys (state (loadCoursesFromFile sampleFiles ''dups.csv'' initialState)) = [''CS200'', ''CS300'']"
    by code_simp
  from failed_load_keeps_catalog[of sampleFiles "''dups.csv''" initialState sampleFiles "''missing.csv''", OF h1 h2] h1 h2 e
  show ?thesis by simp
qed

text \<open>
  Claim C4. After a successful load, every course found in the table is stored under its own
  number, the keys of the table are pairwise different, and the sorted keys are strictly
  ascending in the lexicographic order and are exactly the keys of the table (as many as the
  table has entries).
\<close>

theorem load_establishes_index:
  assumes "ok (loadCoursesFromFile fs filename st)"
  shows "(\<forall>k c. map_of (courses (state (loadCoursesFromFile fs filename st))) k = Some c \<longrightarrow> number c = k)
     \<and> distinct (map fst (courses (state (loadCoursesFromFile fs filename st))))
     \<and> sorted_wrt (<) (sortedKeys (state (loadCoursesFromFile fs filename st)))
     \<and> set (sortedKeys (state (loadCoursesFromFile fs filename st)))
         = dom (map_of (courses (state (loadCoursesFromFile fs filename st))))
     \<and> length (sortedKeys (state (loadCoursesFromFile fs filename st)))
         = length (courses (state (loadCoursesFromFile fs filename st)))"
proof -
  from assms obtain content where c: "fs filename = Some content"
    by (auto simp: load_ok_iff)
  let ?t = "fst (snd (foldl loadLine (0, [], []) (readLines content)))"
  have k: "keyed ?t"
    by (rule foldl_loadLine_keyed) (simp add: keyed_def)
  then have d: "distinct (map fst ?t)" by (simp add: keyed_def)
  have 1: "number c = k" if "map_of ?t k = Some c" for k c
    using map_of_SomeD[OF that] k by (auto simp: keyed_def)
  have 2: "sorted_wrt (<) (sort (map fst ?t))"
    using d by (simp add: strict_sorted_iff)
  have 3: "set (sort (map fst ?t)) = dom (map_of ?t)"
    by (simp add: dom_map_of_conv_image_fst)
  show ?thesis
    unfolding load_unfold[of fs filename content, OF c] using 1 2 3 d by simp
qed

theorem load_establishes_index_witness:
  "ok (loadCoursesFromFile sampleFiles ''courses.csv'' initialState)
   \<and> map_of (courses (state (loadCoursesFromFile sampleFiles ''courses.csv'' initialState))) ''CS200''
       = Some \<lparr>number = ''CS200'', title = ''Second'', prereqNumbers = [''CS100'', ''ZZ9'']\<rparr>
   \<and> number \<lparr>number = ''CS200'', title = ''Second'', prereqNumbers = [''CS100'', ''ZZ9'']\<rparr> = ''CS200''
   \<and> sortedKeys (state (loadCoursesFromFile sampleFiles ''courses.csv'' initialState))
       = [''CS100'', ''CS200'', ''CS300'']
   \<and> sorted_wrt (<) (sortedKeys (state (loadCoursesFromFile sampleFiles ''courses.csv'' initialState)))
   \<and> set (sortedKeys (state (loadCoursesFromFile sampleFiles ''courses.csv'' initialState)))
       = dom (map_of (courses (state (loadCoursesFromFile sampleFiles ''courses.csv'' initialState))))"
proof -
  have h: "ok (loadCoursesFromFile sampleFiles ''courses.csv'' initialState)" by code_simp
  have e1: "map_of (courses (state (loadCoursesFromFile sampleFiles ''courses.csv'' initialState))) ''CS200''
       = Some \<lparr>number = ''CS200'', title = ''Second'', prereqNumbers = [''CS100'', ''ZZ9'']\<rparr>"
    by code_simp
  have e2: "sortedKeys (state (loadCoursesFromFile sampleFiles ''courses.csv'' initialState))
       = [''CS100'', ''CS200'', ''CS300'']"
    by code_simp
  from load_establishes_index[OF h] h e1 e2 show ?thesis by simp
qed

text \<open>
  Claim C5. When several lines of the input are records with the same normalised identifier,
  the last of them wins: for a record line that no later record line shares its key with, the
  table has exactly one entry under that key, namely the course of that line (its title and
  prerequisites), and no warning is written for any record line, duplicate or not. The
  example of the specification, \<open>CS200,First\<close> followed by \<open>cs-200,Second\<close>, is the
  witness.
\<close>

theorem load_last_write_wins:
  assumes "fs filename = Some content"
    and "readLines content = before @ line # after"
    and "recordLine line"
    and "\<forall>l \<in> set after. recordLine l \<longrightarrow> number (lineCourse l) \<noteq> number (lineCourse line)"
  shows "map_of (courses (state (loadCoursesFromFile fs filename st))) (number (lineCourse line))
           = Some (lineCourse line)
     \<and> filter (\<lambda>e. fst e = number (lineCourse line)) (courses (state (loadCoursesFromFile fs filename st)))
           = [(number (lineCourse line), lineCourse line)]
     \<and> (\<forall>m < length (readLines content). recordLine (readLines content ! m) \<longrightarrow>
           MalformedLine (Suc m) \<notin> set (cerr (loadCoursesFromFile fs filename st)))"
proof -
  let ?t = "fst (snd (foldl loadLine (0, [], []) (readLines content)))"
  have k: "keyed ?t"
    by (rule foldl_loadLine_keyed) (simp add: keyed_def)
  have 1: "map_of ?t (number (lineCourse line)) = Some (lineCourse line)"
    unfolding assms(2) using assms(3,4) by (rule foldl_loadLine_last_wins)
  have 2: "filter (\<lambda>e. fst e = number (lineCourse line)) ?t = [(number (lineCourse line), lineCourse line)]"
    using k 1 by (simp add: keyed_def keyed_one_entry)
  have 3: "MalformedLine (Suc m) \<notin> set (snd (snd (foldl loadLine (0, [], []) (readLines content))))"
    if "recordLine (readLines content ! m)" for m
    using that by (simp add: foldl_loadLine_warnings recordLine_def)
  show ?thesis
    unfolding load_unfold[of fs filename content, OF assms(1)] using 1 2 3 by simp
qed

theorem load_last_write_wins_witness:
  "sampleFiles ''dups.csv''
     = Some (''CS200,First\<newline>cs-200,Second\<newline>CS300,Third\<newline>'')
   \<and> readLines (''CS200,First\<newline>cs-200,Second\<newline>CS300,Third\<newline>'')
       = [''CS200,First''] @ ''cs-200,Second'' # [''CS300,Third'']
   \<and> recordLine ''CS200,First'' \<and> recordLine ''cs-200,Second'' \<and> recordLine ''CS300,Third''
   \<and> number (lineCourse ''CS200,First'') = number (lineCourse ''cs-200,Second'')
   \<and> number (lineCourse ''CS300,Third'') \<noteq> number (lineCourse ''cs-200,Second'')
   \<and> map_of (courses (state (loadCoursesFromFile sampleFiles ''dups.csv'' initialState))) ''CS200''
       = Some \<lparr>number = ''CS200'', title = ''Second'', prereqNumbers = []\<rparr>
   \<and> filter (\<lambda>e. fst e = ''CS200'') (courses (state (loadCoursesFromFile sampleFiles ''dups.csv'' initialState)))
       = [(''CS200'', \<lparr>number = ''CS200'', title = ''Second'', prereqNumbers = []\<rparr>)]
   \<and> MalformedLine 1 \<notin> set (cerr (loadCoursesFromFile sampleFiles ''dups.csv'' initialState))
   \<and> MalformedLine 2 \<notin> set (cerr (loadCoursesFromFile sampleFiles ''dups.csv'' initialState))"
proof -
  let ?content = "''CS200,First\<newline>cs-200,Second\<newline>CS300,Third\<newline>''"
  have h1: "sampleFiles ''dups.csv'' = Some ?content" by (simp add: sampleFiles_def)
  have h2: "readLines ?content = [''CS200,First''] @ ''cs-200,Second'' # [''CS300,Third'']" by code_simp
  have r1: "recordLine ''CS200,First''" by code_simp
  have r2: "recordLine ''cs-200,Second''" by code_simp
  have r3: "recordLine ''CS300,Third''" by code_simp
  have c: "lineCourse ''cs-200,Second'' = \<lparr>number = ''CS200'', title = ''Second'', prereqNumbers = []\<rparr>"
    by code_simp
  have k1: "number (lineCourse ''CS200,First'') = number (lineCourse ''cs-200,Second'')" by code_simp
  have k3: "number (lineCourse ''CS300,Third'') \<noteq> number (lineCourse ''cs-200,Second'')" by code_simp
  have h4: "\<forall>l \<in> set [''CS300,Third'']. recordLine l \<longrightarrow> number (lineCourse l) \<noteq> number (lineCourse ''cs-200,Second'')"
    using k3 by simp
  note t = load_last_write_wins[of sampleFiles "''dups.csv''" ?content "[''CS200,First'']" "''cs-200,Second''"
      "[''CS300,Third'']" initialState, OF h1 h2 r2 h4]
  from t have a: "\<forall>m < length (readLines ?content). recordLine (readLines ?content ! m) \<longrightarrow>
      MalformedLine (Suc m) \<notin> set (cerr (loadCoursesFromFile sampleFiles ''dups.csv'' initialState))"
    by blast
  have n0: "MalformedLine 1 \<notin> set (cerr (loadCoursesFromFile sampleFiles ''dups.csv'' initialState))"
    using a[rule_format, of 0] r1 h2 by simp
  have n1: "MalformedLine 2 \<notin> set (cerr (loadCoursesFromFile sampleFiles ''dups.csv'' initialState))"
    using a[rule_format, of 1] r2 h2 by (simp add: numeral_2_eq_2)
  from t c h1 h2 r1 r2 r3 k1 k3 n0 n1 show ?thesis by simp
qed

text \<open>
  Claim C1, as stated, fails: the second line of the file \<open>nokey.csv\<close> is \<open>-,Nothing\<close>;
  its first field normalises to the empty string, the load succeeds, and no warning at all
  is written, so none for line 2.
\<close>

theorem load_empty_identifier_counterexample:
  "readLines (''CS100,Intro\<newline>-,Nothing\<newline>CS300,Third'') ! 1 = ''-,Nothing''
   \<and> normalizeCourseId (splitCSV (trim ''-,Nothing'') ! 0) = []
   \<and> ok (loadCoursesFromFile sampleFiles ''nokey.csv'' initialState)
   \<and> cerr (loadCoursesFromFile sampleFiles ''nokey.csv'' initialState) = []
   \<and> MalformedLine 2 \<notin> set (cerr (loadCoursesFromFile sampleFiles ''nokey.csv'' initialState))"
proof -
  have "readLines (''CS100,Intro\<newline>-,Nothing\<newline>CS300,Third'') ! 1 = ''-,Nothing''"
    by code_simp
  moreover have "normalizeCourseId (splitCSV (trim ''-,Nothing'') ! 0) = []" by code_simp
  moreover have "ok (loadCoursesFromFile sampleFiles ''nokey.csv'' initialState)" by code_simp
  moreover have "cerr (loadCoursesFromFile sampleFiles ''nokey.csv'' initialState) = []" by code_simp
  ultimately show ?thesis by simp
qed


text \<open>
  Claim C1, amended. A line whose first field normalises to the empty string is skipped:
  the table and the sorted keys are those of the same input without that line. A warning
  with the 1-based number of the line is written exactly when the line is not blank and has
  fewer than two fields; a line with two or more fields and an empty normalised identifier
  is skipped without a warning.
\<close>

theorem load_skips_empty_identifier:
  assumes "fs file1 = Some content1" and "readLines content1 = before @ line # after"
    and "fs file2 = Some content2" and "readLines content2 = before @ after"
    and "normalizeCourseId (lineFields line ! 0) = []"
  shows "courses (state (loadCoursesFromFile fs file1 st)) = courses (state (loadCoursesFromFile fs file2 st))
     \<and> sortedKeys (state (loadCoursesFromFile fs file1 st)) = sortedKeys (state (loadCoursesFromFile fs file2 st))
     \<and> (MalformedLine (Suc (length before)) \<in> set (cerr (loadCoursesFromFile fs file1 st))
          \<longleftrightarrow> \<not> blankLine line \<and> length (lineFields line) < 2)"
proof -
  from assms(5) have n: "\<not> recordLine line"
    by (simp add: recordLine_def lineCourse_def)
  have 1: "fst (snd (foldl loadLine (0, [], []) (before @ line # after)))
      = fst (snd (foldl loadLine (0, [], []) (before @ after)))"
    using n by (rule foldl_loadLine_skip)
  have 2: "MalformedLine (Suc (length before)) \<in> set (snd (snd (foldl loadLine (0, [], []) (before @ line # after))))
      \<longleftrightarrow> \<not> blankLine line \<and> length (lineFields line) < 2"
    using foldl_loadLine_warnings[of "Suc (length before)" 0 "[]" "[]" "before @ line # after"]
    by (simp add: shortLine_def)
  show ?thesis
    unfolding load_unfold[of fs file1 content1, OF assms(1)] load_unfold[of fs file2 content2, OF assms(3)] assms(2) assms(4)
    using 1 2 by simp
qed

theorem load_skips_empty_identifier_witness:
  "sampleFiles ''nokey.csv'' = Some (''CS100,Intro\<newline>-,Nothing\<newline>CS300,Third'')
   \<and> readLines (''CS100,Intro\<newline>-,Nothing\<newline>CS300,Third'')
       = [''CS100,Intro''] @ ''-,Nothing'' # [''CS300,Third'']
   \<and> sampleFiles ''nokey_removed.csv'' = Some (''CS100,Intro\<newline>CS300,Third'')
   \<and> readLines (''CS100,Intro\<newline>CS300,Third'') = [''CS100,Intro''] @ [''CS300,Third'']
   \<and> normalizeCourseId (lineFields ''-,Nothing'' ! 0) = []
   \<and> courses (state (loadCoursesFromFile sampleFiles ''nokey.csv'' initialState))
       = courses (state (loadCoursesFromFile sampleFiles ''nokey_removed.csv'' initialState))
   \<and> sortedKeys (state (loadCoursesFromFile sampleFiles ''nokey.csv'' initialState))
       = sortedKeys (state (loadCoursesFromFile sampleFiles ''nokey_removed.csv'' initialState))
   \<and> length (lineFields ''-,Nothing'') = 2
   \<and> MalformedLine 2 \<notin> set (cerr (loadCoursesFromFile sampleFiles ''nokey.csv'' initialState))"
proof -
  let ?c1 = "''CS100,Intro\<newline>-,Nothing\<newline>CS300,Third''"
  let ?c2 = "''CS100,Intro\<newline>CS300,Third''"
  have h1: "sampleFiles ''nokey.csv'' = Some ?c1" by (simp add: sampleFiles_def)
  have h2: "readLines ?c1 = [''CS100,Intro''] @ ''-,Nothing'' # [''CS300,Third'']" by code_simp
  have h3: "sampleFiles ''nokey_removed.csv'' = Some ?c2" by (simp add: sampleFiles_def)
  have h4: "readLines ?c2 = [''CS100,Intro''] @ [''CS300,Third'']" by code_simp
  have h5: "normalizeCourseId (lineFields ''-,Nothing'' ! 0) = []" by code_simp
  have l: "length (lineFields ''-,Nothing'') = 2" by code_simp
  note t = load_skips_empty_identifier[of sampleFiles "''nokey.csv''" ?c1 "[''CS100,Intro'']" "''-,Nothing''"
      "[''CS300,Third'']" "''nokey_removed.csv''" ?c2 initialState, OF h1 h2 h3 h4 h5]
  from t l have "MalformedLine 2 \<notin> set (cerr (loadCoursesFromFile sampleFiles ''nokey.csv'' initialState))"
    by (simp add: numeral_2_eq_2)
  with t h1 h2 h3 h4 h5 l show ?thesis by simp
qed

subsection \<open>The query service\<close>

text \<open>
  The loop that prints the prerequisites writes the resolved prerequisites of the
  specification, in order, with a comma and a space between consecutive ones.
\<close>

lemma printPrereqs_joinWith:
  "printPrereqs table ps = joinWith '', '' (map (\<lambda>pid. showResolved (resolvePrereq table pid)) ps)"
proof (induction ps)
  case Nil
  show ?case by simp
next
  case (Cons pid rest)
  have one: "(case map_of table pid of Some p \<Rightarrow> number p @ '' ('' @ title p @ '')''
                | None \<Rightarrow> pid @ '' (missing)'') = showResolved (resolvePrereq table pid)"
    by (simp add: showResolved_def resolvePrereq_def split: option.splits)
  show ?case
  proof (cases rest)
    case Nil
    then show ?thesis using one by simp
  next
    case (Cons pid' rest')
    with Cons.IH one show ?thesis by simp
  qed
qed

text \<open>
  Claim C7. For a loaded catalog and a query whose normalised form is the key of a course
  in the table, \<open>printSingleCourse\<close> writes the number and title of the course, and
  then one resolved entry for each element of its prerequisite list, in the order of the
  list: number and title of the prerequisite when its key is in the table, the identifier
  itself with the marker \<open>missing\<close> when it is not. For a course with no prerequisite it
  writes the explicit marker \<open>Prerequisites: None\<close> instead of an empty list.
\<close>

theorem printSingleCourse_found:
  assumes "loaded st" and "readLine cin = (q, rest)"
    and "normalizeCourseId q \<noteq> []"
    and "map_of (courses st) (normalizeCourseId q) = Some c"
  shows "printSingleCourse st cin =
     (coursePrompt @ number c @ '', '' @ title c @ [newline] @
        (if prereqNumbers c = [] then ''Prerequisites: None'' @ [newline]
         else ''Prerequisites: ''
              @ joinWith '', '' (map (\<lambda>pid. showResolved (resolvePrereq (courses st) pid)) (prereqNumbers c))
              @ [newline]),
      rest)
   \<and> length (map (resolvePrereq (courses st)) (prereqNumbers c)) = length (prereqNumbers c)
   \<and> (\<forall>i < length (prereqNumbers c).
         map (resolvePrereq (courses st)) (prereqNumbers c) ! i =
           (case map_of (courses st) (prereqNumbers c ! i) of
              Some p \<Rightarrow> (number p, title p)
            | None \<Rightarrow> (prereqNumbers c ! i, ''missing'')))"
  using assms
  by (simp add: printSingleCourse_def describeCourse_def printPrereqs_joinWith resolvePrereq_def)


theorem printSingleCourse_found_witness:
  "loaded (state (loadCoursesFromFile sampleFiles ''courses.csv'' initialState))
   \<and> readLine ''cs 200\<newline>9'' = (''cs 200'', ''9'')
   \<and> normalizeCourseId ''cs 200'' \<noteq> []
   \<and> map_of (courses (state (loadCoursesFromFile sampleFiles ''courses.csv'' initialState)))
        (normalizeCourseId ''cs 200'')
       = Some \<lparr>number = ''CS200'', title = ''Second'', prereqNumbers = [''CS100'', ''ZZ9'']\<rparr>
   \<and> printSingleCourse (state (loadCoursesFromFile sampleFiles ''courses.csv'' initialState)) ''cs 200\<newline>9''
       = (coursePrompt @ ''CS200, Second\<newline>Prerequisites: CS100 (Intro), ZZ9 (missing)\<newline>'', ''9'')
   \<and> map (resolvePrereq (courses (state (loadCoursesFromFile sampleFiles ''courses.csv'' initialState))))
         [''CS100'', ''ZZ9'']
       = [(''CS100'', ''Intro''), (''ZZ9'', ''missing'')]
   \<and> printSingleCourse (state (loadCoursesFromFile sampleFiles ''courses.csv'' initialState)) ''CS100''
       = (coursePrompt @ ''CS100, Intro\<newline>Prerequisites: None\<newline>'', [])"
proof -
  let ?st = "state (loadCoursesFromFile sampleFiles ''courses.csv'' initialState)"
  let ?c = "\<lparr>number = ''CS200'', title = ''Second'', prereqNumbers = [''CS100'', ''ZZ9'']\<rparr>"
  have h1: "loaded ?st" by code_simp
  have h2: "readLine ''cs 200\<newline>9'' = (''cs 200'', ''9'')" by code_simp
  have h3: "normalizeCourseId ''cs 200'' \<noteq> []" by code_simp
  have h4: "map_of (courses ?st) (normalizeCourseId ''cs 200'') = Some ?c" by code_simp
  have r: "map (resolvePrereq (courses ?st)) [''CS100'', ''ZZ9''] = [(''CS100'', ''Intro''), (''ZZ9'', ''missing'')]"
    by code_simp
  have z: "printSingleCourse ?st ''CS100'' = (coursePrompt @ ''CS100, Intro\<newline>Prerequisites: None\<newline>'', [])"
    by code_simp
  note t = printSingleCourse_found[of ?st "''cs 200\<newline>9''" "''cs 200''" "''9''" ?c, OF h1 h2 h3 h4]
  from t have "printSingleCourse ?st ''cs 200\<newline>9'' =
     (coursePrompt @ number ?c @ '', '' @ title ?c @ [newline] @
        (if prereqNumbers ?c = [] then ''Prerequisites: None'' @ [newline]
         else ''Prerequisites: ''
              @ joinWith '', '' (map (\<lambda>pid. showResolved (resolvePrereq (courses ?st) pid)) (prereqNumbers ?c))
              @ [newline]),
      ''9'')"
    by (rule conjunct1)
  moreover have "map (\<lambda>pid. showResolved (resolvePrereq (courses ?st) pid)) [''CS100'', ''ZZ9'']
      = [''CS100 (Intro)'', ''ZZ9 (missing)'']"
    by code_simp
  ultimately have "printSingleCourse ?st ''cs 200\<newline>9''
       = (coursePrompt @ ''CS200, Second\<newline>Prerequisites: CS100 (Intro), ZZ9 (missing)\<newline>'', ''9'')"
    by simp
  with h1 h2 h3 h4 r z show ?thesis by simp
qed

text \<open>
  The answer for a course that is found has at least two line ends, so it is never the
  one-line answer for an empty query.
\<close>

lemma newlines_found:
  "length (filter (\<lambda>ch. ch = newline) (n @ '', '' @ t @ [newline] @ x @ [newline])) \<ge> 2"
  by simp

lemma describeCourse_empty_iff:
  "describeCourse st q = ''No course entered.'' @ [newline] \<longleftrightarrow> normalizeCourseId q = []"
proof (cases "normalizeCourseId q = []")
  case True
  then show ?thesis by (simp add: describeCourse_def)
next
  case False
  show ?thesis
  proof (cases "map_of (courses st) (normalizeCourseId q)")
    case None
    with False show ?thesis by (simp add: describeCourse_def)
  next
    case (Some c)
    have "describeCourse st q \<noteq> ''No course entered.'' @ [newline]"
    proof
      assume e: "describeCourse st q = ''No course entered.'' @ [newline]"
      define x where "x = (if prereqNumbers c = [] then ''Prerequisites: None''
          else ''Prerequisites: '' @ printPrereqs (courses st) (prereqNumbers c))"
      have x: "describeCourse st q = number c @ '', '' @ title c @ [newline] @ x @ [newline]"
        using False Some by (simp add: describeCourse_def x_def)
      have "length (filter (\<lambda>ch. ch = newline) (describeCourse st q)) \<ge> 2"
        unfolding x by (rule newlines_found)
      moreover have "length (filter (\<lambda>ch. ch = newline) (''No course entered.'' @ [newline])) = 1"
        by simp
      ultimately show False using e by simp
    qed
    with False show ?thesis by simp
  qed
qed

text \<open>
  Claim C8. For a loaded catalog, \<open>printSingleCourse\<close> answers \<open>No course entered.\<close>
  exactly when the query normalises to the empty string; in that case the answer is the same
  for every loaded catalog, that is, it does not depend on the table. A query that normalises
  to a non-empty key that is not in the table is answered \<open>Course not found.\<close>, and the
  two answers are different.
\<close>

theorem printSingleCourse_empty_query:
  assumes "loaded st" and "readLine cin = (q, rest)"
  shows "(fst (printSingleCourse st cin) = coursePrompt @ ''No course entered.'' @ [newline]
            \<longleftrightarrow> normalizeCourseId q = [])
     \<and> (normalizeCourseId q = [] \<longrightarrow>
           (\<forall>st'. loaded st' \<longrightarrow> printSingleCourse st' cin = printSingleCourse st cin))
     \<and> (normalizeCourseId q \<noteq> [] \<and> map_of (courses st) (normalizeCourseId q) = None \<longrightarrow>
           fst (printSingleCourse st cin) = coursePrompt @ ''Course not found.'' @ [newline])
     \<and> coursePrompt @ ''Course not found.'' @ [newline] \<noteq> coursePrompt @ ''No course entered.'' @ [newline]"
proof -
  have 1: "fst (printSingleCourse st cin) = coursePrompt @ describeCourse st q"
    using assms by (simp add: printSingleCourse_def)
  have 2: "printSingleCourse st' cin = printSingleCourse st cin"
    if "normalizeCourseId q = []" "loaded st'" for st'
    using that assms by (simp add: printSingleCourse_def describeCourse_def)
  have 3: "describeCourse st q = ''Course not found.'' @ [newline]"
    if "normalizeCourseId q \<noteq> []" "map_of (courses st) (normalizeCourseId q) = None"
    using that by (simp add: describeCourse_def)
  show ?thesis
    using 1 2 3 describeCourse_empty_iff[of st q] by simp
qed


theorem printSingleCourse_empty_query_witness:
  "loaded (state (loadCoursesFromFile sampleFiles ''courses.csv'' initialState))
   \<and> readLine ''   \<newline>ZZ000'' = (''   '', ''ZZ000'')
   \<and> normalizeCourseId ''   '' = []
   \<and> fst (printSingleCourse (state (loadCoursesFromFile sampleFiles ''courses.csv'' initialState)) ''   \<newline>ZZ000'')
       = coursePrompt @ ''No course entered.\<newline>''
   \<and> printSingleCourse (state (loadCoursesFromFile sampleFiles ''dups.csv'' initialState)) ''   \<newline>ZZ000''
       = printSingleCourse (state (loadCoursesFromFile sampleFiles ''courses.csv'' initialState)) ''   \<newline>ZZ000''
   \<and> readLine [] = ([], [])
   \<and> fst (printSingleCourse (state (loadCoursesFromFile sampleFiles ''courses.csv'' initialState)) [])
       = coursePrompt @ ''No course entered.\<newline>''
   \<and> readLine ''ZZ000'' = (''ZZ000'', [])
   \<and> normalizeCourseId ''ZZ000'' \<noteq> []
   \<and> map_of (courses (state (loadCoursesFromFile sampleFiles ''courses.csv'' initialState)))
        (normalizeCourseId ''ZZ000'') = None
   \<and> fst (printSingleCourse (state (loadCoursesFromFile sampleFiles ''courses.csv'' initialState)) ''ZZ000'')
       = coursePrompt @ ''Course not found.\<newline>''"
proof -
  let ?st = "state (loadCoursesFromFile sampleFiles ''courses.csv'' initialState)"
  let ?st' = "state (loadCoursesFromFile sampleFiles ''dups.csv'' initialState)"
  have h1: "loaded ?st" by code_simp
  have h1': "loaded ?st'" by code_simp
  have h2: "readLine ''   \<newline>ZZ000'' = (''   '', ''ZZ000'')" by code_simp
  have n2: "normalizeCourseId ''   '' = []" by code_simp
  have h3: "readLine [] = ([], [])" by code_simp
  have n3: "normalizeCourseId [] = []" by code_simp
  have h4: "readLine ''ZZ000'' = (''ZZ000'', [])" by code_simp
  have n4: "normalizeCourseId ''ZZ000'' \<noteq> []" by code_simp
  have m4: "map_of (courses ?st) (normalizeCourseId ''ZZ000'') = None" by code_simp
  note t2 = printSingleCourse_empty_query[of ?st "''   \<newline>ZZ000''" "''   ''" "''ZZ000''", OF h1 h2]
  note t3 = printSingleCourse_empty_query[of ?st "[]" "[]" "[]", OF h1 h3]
  note t4 = printSingleCourse_empty_query[of ?st "''ZZ000''" "''ZZ000''" "[]", OF h1 h4]
  from t2 n2 have a: "fst (printSingleCourse ?st ''   \<newline>ZZ000'') = coursePrompt @ ''No course entered.'' @ [newline]"
    by blast
  from t2 n2 h1' have b: "printSingleCourse ?st' ''   \<newline>ZZ000'' = printSingleCourse ?st ''   \<newline>ZZ000''"
    by blast
  from t3 n3 have c: "fst (printSingleCourse ?st []) = coursePrompt @ ''No course entered.'' @ [newline]"
    by blast
  from t4 n4 m4 have d: "fst (printSingleCourse ?st ''ZZ000'') = coursePrompt @ ''Course not found.'' @ [newline]"
    by blast
  from a b c d h1 h2 n2 h3 h4 n4 m4 show ?thesis by simp
qed

subsection \<open>The flag loaded\<close>

lemma load_loaded:
  "loaded st \<or> ok (loadCoursesFromFile fs filename st) \<Longrightarrow> loaded (state (loadCoursesFromFile fs filename st))"
  by (auto simp: loadCoursesFromFile_def split: option.splits prod.splits)

lemma menuStep_loaded: "loaded st \<Longrightarrow> loaded (nextState (menuStep fs choice cin st))"
  by (auto simp: menuStep_def Let_def load_loaded split: prod.splits sum.splits)

lemma mainLoop_loaded: "loaded st \<Longrightarrow> loaded (finalState (mainLoop fs cin st))"
proof (induction fs cin st rule: mainLoop.induct)
  case (1 fs cin st)
  show ?case
  proof (cases "getline cin")
    case None
    with 1(2) show ?thesis by (subst mainLoop.simps) simp
  next
    case (Some p)
    obtain line rest where p: "p = (line, rest)" by (cases p)
    define choice where "choice = (case stoi (trim line) of None \<Rightarrow> - 1 | Some n \<Rightarrow> n)"
    define step where "step = menuStep fs choice rest st"
    have l: "loaded (nextState step)"
      unfolding step_def using 1(2) by (rule menuStep_loaded)
    show ?thesis
    proof (cases "flow step")
      case Continue
      from 1(1)[OF Some p[symmetric] choice_def step_def Continue l]
      show ?thesis
        using Some p Continue
        by (subst mainLoop.simps) (simp add: choice_def[symmetric] step_def[symmetric] Let_def)
    next
      case Break
      with l Some p show ?thesis
        by (subst mainLoop.simps) (simp add: choice_def[symmetric] step_def[symmetric] Let_def)
    next
      case (Uncaught e)
      with l Some p show ?thesis
        by (subst mainLoop.simps) (simp add: choice_def[symmetric] step_def[symmetric] Let_def)
    qed
  qed
qed

lemma printCourseList_loop_comma:
  "printCourseList_loop table ks = Inr out \<Longrightarrow> out = [] \<or> CHR '','' \<in> set out"
  by (cases ks) (auto split: option.splits sum.splits)

lemma printCourseList_loaded: "loaded st \<Longrightarrow> printCourseList st \<noteq> Inr notLoadedMessage"
proof
  assume l: "loaded st" and e: "printCourseList st = Inr notLoadedMessage"
  then have "printCourseList_loop (courses st) (sortedKeys st) = Inr notLoadedMessage"
    by (simp add: printCourseList_def)
  from printCourseList_loop_comma[OF this] show False
    by (simp add: notLoadedMessage_def)
qed

lemma printSingleCourse_loaded: "loaded st \<Longrightarrow> fst (printSingleCourse st cin) \<noteq> notLoadedMessage"
  by (simp add: printSingleCourse_def notLoadedMessage_def coursePrompt_def split: prod.splits)

text \<open>
  Claim C10. The flag \<open>loaded\<close> is monotone. A load that succeeds sets it. Once it is set,
  a load attempt leaves it set, whether the attempt succeeds or fails, and so do every branch
  of the menu and every run of the main loop on any input; and neither of the two queries
  then answers with the message that asks to load the data first.
\<close>

theorem loaded_monotone:
  "(ok (loadCoursesFromFile fs filename st0) \<longrightarrow> loaded (state (loadCoursesFromFile fs filename st0)))
   \<and> (loaded st \<longrightarrow>
        loaded (state (loadCoursesFromFile fs filename st))
        \<and> loaded (nextState (menuStep fs choice cin st))
        \<and> loaded (finalState (mainLoop fs cin st))
        \<and> printCourseList st \<noteq> Inr notLoadedMessage
        \<and> fst (printSingleCourse st cin) \<noteq> notLoadedMessage)"
  using load_loaded[of st0 fs filename] load_loaded[of st fs filename] menuStep_loaded[of st fs choice cin]
    mainLoop_loaded[of st fs cin] printCourseList_loaded[of st] printSingleCourse_loaded[of st cin]
  by blast


theorem loaded_monotone_witness:
  "ok (loadCoursesFromFile sampleFiles ''dups.csv'' initialState)
   \<and> loaded (state (loadCoursesFromFile sampleFiles ''dups.csv'' initialState))
   \<and> \<not> ok (loadCoursesFromFile sampleFiles ''missing.csv''
              (state (loadCoursesFromFile sampleFiles ''dups.csv'' initialState)))
   \<and> loaded (state (loadCoursesFromFile sampleFiles ''missing.csv''
                (state (loadCoursesFromFile sampleFiles ''dups.csv'' initialState))))
   \<and> loaded (nextState (menuStep sampleFiles 1 ''missing.csv\<newline>2\<newline>9\<newline>''
                (state (loadCoursesFromFile sampleFiles ''dups.csv'' initialState))))
   \<and> loaded (finalState (mainLoop sampleFiles ''1\<newline>missing.csv\<newline>2\<newline>9\<newline>''
                (state (loadCoursesFromFile sampleFiles ''dups.csv'' initialState))))
   \<and> printCourseList (state (loadCoursesFromFile sampleFiles ''dups.csv'' initialState))
       = Inr ''CS200, Second\<newline>CS300, Third\<newline>''
   \<and> printCourseList (state (loadCoursesFromFile sampleFiles ''dups.csv'' initialState)) \<noteq> Inr notLoadedMessage
   \<and> fst (printSingleCourse (state (loadCoursesFromFile sampleFiles ''dups.csv'' initialState))
            ''missing.csv\<newline>2\<newline>9\<newline>'') \<noteq> notLoadedMessage"
proof -
  let ?st = "state (loadCoursesFromFile sampleFiles ''dups.csv'' initialState)"
  have h0: "ok (loadCoursesFromFile sampleFiles ''dups.csv'' initialState)" by code_simp
  have f: "\<not> ok (loadCoursesFromFile sampleFiles ''missing.csv'' ?st)" by code_simp
  have p: "printCourseList ?st = Inr ''CS200, Second\<newline>CS300, Third\<newline>''" by code_simp
  note t0 = loaded_monotone[where fs = sampleFiles and filename = "''dups.csv''" and ?st0.0 = initialState]
  from t0 h0 have l: "loaded ?st" by blast
  note t = loaded_monotone[where fs = sampleFiles and filename = "''missing.csv''" and st = ?st
      and choice = 1 and cin = "''missing.csv\<newline>2\<newline>9\<newline>''"]
  note t' = loaded_monotone[where fs = sampleFiles and filename = "''missing.csv''" and st = ?st
      and choice = 1 and cin = "''1\<newline>missing.csv\<newline>2\<newline>9\<newline>''"]
  from t t' l h0 f p show ?thesis by blast
qed


end
